theory Spec2Isabelle
  imports Main "HOL-Library.Word" "HOL-Library.Sublist"
begin

unbundle bit_operations_syntax

section \<open>Cosa VWI (Virtual Wire Interface): a shallow embedding of Cosa/VWI.cpp\<close>

text \<open>
  The development follows \<^verbatim>\<open>Cosa/VWI.cpp\<close>. Every definition names the source lines it
  embeds. The class declarations live in \<^verbatim>\<open>Cosa/VWI.hh\<close>, which is not among the
  sources; what the embedding needs from it is handled as follows.
  \<^item> The named constants (\<^verbatim>\<open>RAMP_MAX\<close>, \<^verbatim>\<open>RAMP_TRANSITION\<close>, \<^verbatim>\<open>RAMP_INC_RETARD\<close>,
    \<^verbatim>\<open>RAMP_INC_ADVANCE\<close>, \<^verbatim>\<open>PAYLOAD_MAX\<close>, \<^verbatim>\<open>MESSAGE_MAX\<close>) are parameters: the fields of
    the record \<open>vwi_consts\<close>, passed to every function that uses one.
  \<^item> The widths of the data members follow their uses in VWI.cpp: \<^verbatim>\<open>m_length\<close> is
    assigned to and from \<^verbatim>\<open>uint8_t\<close> values and passed as the \<^verbatim>\<open>uint8_t\<close> count of
    \<^verbatim>\<open>CRC\<close>; \<^verbatim>\<open>m_bits\<close> carries the masks \<^verbatim>\<open>0x800\<close> and \<^verbatim>\<open>0xb38\<close> and is 16 bits wide;
    the remaining counters are taken as 8-bit unsigned, the flags and samples as
    booleans (the sample is the result of \<^verbatim>\<open>read()\<close>).
\<close>

subsection \<open>Constants of the absent header\<close>

record vwi_consts =
  RAMP_MAX :: "8 word"
  RAMP_TRANSITION :: "8 word"
  RAMP_INC_RETARD :: "8 word"
  RAMP_INC_ADVANCE :: "8 word"
  PAYLOAD_MAX :: "8 word"
  MESSAGE_MAX :: "8 word"

text \<open>
  Modelled from the spec: \<^verbatim>\<open>RAMP_INC\<close> is declared in VWI.hh, which is absent. The
  source only says (VWI.cpp line 130) that it is \<^verbatim>\<open>MAX/BITS\<close> samples; the spec gives it
  as the ramp maximum divided by 8.
\<close>

definition RAMP_INC :: "vwi_consts \<Rightarrow> 8 word" where
  "RAMP_INC k = RAMP_MAX k div 8"

text \<open>
  \<^verbatim>\<open>HEADER_MAX\<close> is the declared size of \<^verbatim>\<open>Transmitter::header\<close>, whose initialiser
  (VWI.cpp lines 300-303) lists eight symbols.
\<close>

definition header :: "8 word list" where
  "header = [0x2a, 0x2a, 0x2a, 0x2a, 0x2a, 0x2a, 0x38, 0x2c]"

definition HEADER_MAX :: nat where
  "HEADER_MAX = 8"

subsection \<open>Symbol codec (VWI.cpp lines 39-43 and 56-63)\<close>

definition symbols :: "8 word list" where
  "symbols = [0xd, 0xe, 0x13, 0x15, 0x16, 0x19, 0x1a, 0x1c,
              0x23, 0x25, 0x26, 0x29, 0x2a, 0x2c, 0x32, 0x34]"

text \<open>The \<^verbatim>\<open>for\<close> loop of \<^verbatim>\<open>symbol_6to4\<close>, started at index \<open>i\<close>.\<close>

function symbol_scan :: "8 word \<Rightarrow> nat \<Rightarrow> 8 word" where
  "symbol_scan symbol i =
     (if i < 16
      then (if symbol = symbols ! i then of_nat i else symbol_scan symbol (Suc i))
      else 0)"
  by pat_completeness auto
termination
  by (relation "measure (\<lambda>(symbol, i). 16 - i)") auto

declare symbol_scan.simps [simp del]

definition symbol_6to4 :: "8 word \<Rightarrow> 8 word" where
  "symbol_6to4 symbol = symbol_scan symbol 0"

subsection \<open>Frame checksum (VWI.cpp lines 47-54)\<close>

text \<open>
  Modelled from the spec: \<^verbatim>\<open>_crc_ccitt_update\<close> comes from avr-libc's
  \<^verbatim>\<open><util/crc16.h>\<close>, which is not among the sources. The spec names it as the
  incremental 16-bit CRC with the CCITT polynomial; the definition is the C
  equivalent that avr-libc documents for it:
  \<^verbatim>\<open>data ^= lo8(crc); data ^= data << 4;
  return ((((uint16_t)data << 8) | hi8(crc)) ^ (uint8_t)(data >> 4) ^ ((uint16_t)data << 3));\<close>
\<close>

definition crc_ccitt_update :: "16 word \<Rightarrow> 8 word \<Rightarrow> 16 word" where
  "crc_ccitt_update crc data =
     (let d1 = data XOR ucast crc;
          d2 = d1 XOR push_bit 4 d1
      in (push_bit 8 (ucast d2) OR drop_bit 8 crc)
           XOR ucast (drop_bit 4 d2)
           XOR push_bit 3 (ucast d2))"

text \<open>
  \<^verbatim>\<open>CRC(ptr, count)\<close>: the running update over the first \<open>count\<close> bytes at \<open>ptr\<close>,
  seeded with \<^verbatim>\<open>0xffff\<close>. The memory at \<open>ptr\<close> is the list \<open>buf\<close>; every call in
  VWI.cpp passes a count within the array.
\<close>

definition CRC :: "8 word list \<Rightarrow> 8 word \<Rightarrow> 16 word" where
  "CRC buf count = fold (\<lambda>b crc. crc_ccitt_update crc b) (take (unat count) buf) 0xffff"

subsection \<open>Timer calculation (VWI.cpp lines 75-115)\<close>

definition prescalers :: "nat list" where
  "prescalers = [0, 1, 8, 64, 256, 1024, 3333]"

text \<open>
  Lines 93-97 compute \<^verbatim>\<open>ulticks\<close> in single-precision floating point from \<^verbatim>\<open>F_CPU\<close>
  (a build macro, absent), the speed and the divider \<^verbatim>\<open>prescalers[prescaler]\<close>. That
  computation is the parameter \<open>ticks\<close>: \<open>ticks d\<close> is the value \<^verbatim>\<open>ulticks\<close> receives
  for the divider \<open>d\<close> at the speed of the call. The control flow around it is
  embedded as written. \<open>timer_loop\<close> is the \<^verbatim>\<open>for\<close> loop (lines 91-103) entered at
  index \<open>prescaler\<close>; it returns the index and the last \<^verbatim>\<open>ulticks\<close> at loop exit.
\<close>

function timer_loop :: "(nat \<Rightarrow> nat) \<Rightarrow> 16 word \<Rightarrow> nat \<Rightarrow> nat \<Rightarrow> nat \<times> nat" where
  "timer_loop ticks max_ticks prescaler ulticks =
     (if prescaler < 7
      then (let ul = ticks (prescalers ! prescaler)
            in if ul > 1 \<and> ul < unat max_ticks
               then (prescaler, ul)
               else timer_loop ticks max_ticks (prescaler + 1) ul)
      else (prescaler, ulticks))"
  by pat_completeness auto
termination
  by (relation "measure (\<lambda>(ticks, max_ticks, prescaler, ulticks). 7 - prescaler)") auto

declare timer_loop.simps [simp del]

text \<open>
  \<^verbatim>\<open>_timer_calc(speed, max_ticks, &nticks)\<close>: the result pair is the returned prescaler
  index and the value stored to \<^verbatim>\<open>*nticks\<close>. \<^verbatim>\<open>ulticks\<close> is not initialised before the
  loop; the loop body runs at least once and assigns it, so the start value \<open>0\<close>
  below is never read.
\<close>

definition timer_calc :: "(nat \<Rightarrow> nat) \<Rightarrow> 16 word \<Rightarrow> 16 word \<Rightarrow> 8 word \<times> 16 word" where
  "timer_calc ticks speed max_ticks =
     (if speed = 0 then (0, 0)
      else (let (prescaler, ulticks) = timer_loop ticks max_ticks 1 0
            in if prescaler = 6 \<or> ulticks < 2 \<or> ulticks > unat max_ticks
               then (0, 0)
               else (of_nat prescaler, of_nat ulticks)))"

text \<open>
  The exact quotient that lines 93-97 approximate: \<^verbatim>\<open>bit_time / clock_time\<close> is
  \<open>F_CPU / (8 * speed * d)\<close>, truncated by the conversion to \<^verbatim>\<open>long\<close>. The floating
  point result agrees with it wherever the quotient is not within rounding error
  of an integer; it serves to name concrete tick tables.
\<close>

definition exact_ticks :: "nat \<Rightarrow> nat \<Rightarrow> nat \<Rightarrow> nat" where
  "exact_ticks f_cpu speed d = f_cpu div (8 * speed * d)"

subsection \<open>Receiver (VWI.cpp lines 117-196 and 276-298)\<close>

record Receiver =
  m_sample :: bool
  m_last_sample :: bool
  m_pll_ramp :: "8 word"
  m_integrator :: "8 word"
  m_active :: bool
  m_done :: bool
  m_enabled :: bool
  m_bits :: "16 word"
  m_bit_count :: "8 word"
  m_buffer :: "8 word list"
  m_count :: "8 word"
  m_length :: "8 word"
  m_bad :: "8 word"
  m_good :: "8 word"

text \<open>Lines 120-132: integrate the sample and advance the ramp.\<close>

definition ramp_inc :: "vwi_consts \<Rightarrow> Receiver \<Rightarrow> 8 word" where
  "ramp_inc k r =
     (if m_sample r \<noteq> m_last_sample r
      then (if m_pll_ramp r < RAMP_TRANSITION k then RAMP_INC_RETARD k else RAMP_INC_ADVANCE k)
      else RAMP_INC k)"

definition PLL_ramp :: "vwi_consts \<Rightarrow> Receiver \<Rightarrow> Receiver" where
  "PLL_ramp k r =
     (let r1 = (if m_sample r then r\<lparr>m_integrator := m_integrator r + 1\<rparr> else r)
      in if m_sample r1 \<noteq> m_last_sample r1
         then r1\<lparr>m_pll_ramp := m_pll_ramp r1
                    + (if m_pll_ramp r1 < RAMP_TRANSITION k
                       then RAMP_INC_RETARD k else RAMP_INC_ADVANCE k),
                 m_last_sample := m_sample r1\<rparr>
         else r1\<lparr>m_pll_ramp := m_pll_ramp r1 + RAMP_INC k\<rparr>)"

text \<open>Lines 134-146: shift the decided bit into the window, wrap the ramp, clear the integrator.\<close>

definition PLL_bit :: "vwi_consts \<Rightarrow> Receiver \<Rightarrow> Receiver" where
  "PLL_bit k r =
     (let r1 = r\<lparr>m_bits := drop_bit 1 (m_bits r)\<rparr>;
          r2 = (if m_integrator r1 \<ge> 5 then r1\<lparr>m_bits := m_bits r1 OR 0x800\<rparr> else r1)
      in r2\<lparr>m_pll_ramp := m_pll_ramp r2 - RAMP_MAX k, m_integrator := 0\<rparr>)"

text \<open>
  Lines 155-156: two 6-bit symbols to one byte; the first argument is the symbol
  in the six low bits of the window.
\<close>

definition decode_byte :: "8 word \<Rightarrow> 8 word \<Rightarrow> 8 word" where
  "decode_byte lo6 hi6 = push_bit 4 (symbol_6to4 lo6) OR symbol_6to4 hi6"

definition window_byte :: "16 word \<Rightarrow> 8 word" where
  "window_byte bits = decode_byte (ucast (bits AND 0x3f)) (ucast (drop_bit 6 bits))"

text \<open>
  Lines 174-182: store the byte and test for the end of the message. A store
  beyond the array is undefined in C++; the list update leaves the list unchanged
  there. Lemma \<open>reachable_store_in_range\<close> shows that the index is inside the array
  whenever the store runs in a reachable state.
\<close>

definition PLL_store :: "8 word \<Rightarrow> Receiver \<Rightarrow> Receiver" where
  "PLL_store data r =
     (let r1 = r\<lparr>m_buffer := (m_buffer r)[unat (m_length r) := data],
                 m_length := m_length r + 1\<rparr>;
          r2 = (if m_length r1 \<ge> m_count r1
                then r1\<lparr>m_active := False, m_good := m_good r1 + 1, m_done := True\<rparr>
                else r1)
      in r2\<lparr>m_bit_count := 0\<rparr>)"

text \<open>Lines 155-182: a whole byte is in the window.\<close>

definition PLL_byte :: "vwi_consts \<Rightarrow> Receiver \<Rightarrow> Receiver" where
  "PLL_byte k r =
     (let data = window_byte (m_bits r)
      in if m_length r = 0
         then (let r1 = r\<lparr>m_count := data\<rparr>
               in if m_count r1 < 4 \<or> m_count r1 > MESSAGE_MAX k
                  then r1\<lparr>m_active := False, m_bad := m_bad r1 + 1\<rparr>
                  else PLL_store data r1)
         else PLL_store data r)"

text \<open>Lines 148-194: framing after a bit boundary.\<close>

definition PLL_frame :: "vwi_consts \<Rightarrow> Receiver \<Rightarrow> Receiver" where
  "PLL_frame k r =
     (if m_active r
      then (let r1 = r\<lparr>m_bit_count := m_bit_count r + 1\<rparr>
            in if m_bit_count r1 \<ge> 12 then PLL_byte k r1 else r1)
      else if m_bits r = 0xb38
      then r\<lparr>m_active := True, m_bit_count := 0, m_length := 0, m_done := False\<rparr>
      else r)"

definition PLL :: "vwi_consts \<Rightarrow> Receiver \<Rightarrow> Receiver" where
  "PLL k r =
     (let r1 = PLL_ramp k r
      in if m_pll_ramp r1 \<ge> RAMP_MAX k then PLL_frame k (PLL_bit k r1) else r1)"

text \<open>
  \<^verbatim>\<open>memcpy(dst, src, n)\<close> on lists: the first \<open>n\<close> bytes of \<open>dst\<close> are replaced by the
  first \<open>n\<close> bytes of \<open>src\<close>. Both regions hold at least \<open>n\<close> bytes in every call the
  theorems below are about.
\<close>

definition memcpy :: "8 word list \<Rightarrow> 8 word list \<Rightarrow> nat \<Rightarrow> 8 word list" where
  "memcpy dst src n = take n src @ drop n dst"

text \<open>
  \<^verbatim>\<open>recv(buf, len)\<close> (lines 276-298). The result is the returned \<^verbatim>\<open>bool\<close>, the caller's
  buffer, the caller's \<^verbatim>\<open>*len\<close> and the receiver afterwards.
\<close>

definition recv :: "Receiver \<Rightarrow> 8 word list \<Rightarrow> 8 word \<Rightarrow> bool \<times> 8 word list \<times> 8 word \<times> Receiver" where
  "recv r buf len =
     (if \<not> m_done r then (False, buf, len, r)
      else (let rxlen = m_length r - 3;
                len' = (if len > rxlen then rxlen else len);
                buf' = memcpy buf (drop 1 (m_buffer r)) (unat len')
            in (CRC (m_buffer r) (m_length r) = 0xf0b8, buf', len', r\<lparr>m_done := False\<rparr>)))"

subsection \<open>Transmitter (VWI.cpp lines 300-377 and 398-417)\<close>

text \<open>
  The members of \<^verbatim>\<open>VWI::Transmitter\<close>; the prefix \<open>tx_\<close> stands for the source's
  \<^verbatim>\<open>m_\<close>, which the receiver's fields already use. \<open>tx_pin\<close> is the level last
  written to the output pin.
\<close>

record Transmitter =
  tx_buffer :: "8 word list"
  tx_length :: "8 word"
  tx_index :: "8 word"
  tx_bit :: "8 word"
  tx_sample :: "8 word"
  tx_enabled :: bool
  tx_msg_count :: "16 word"
  tx_pin :: bool

text \<open>\<^verbatim>\<open>Transmitter::begin()\<close> (lines 311-320); the returned value is always true.\<close>

definition Transmitter_begin :: "Transmitter \<Rightarrow> Transmitter" where
  "Transmitter_begin t =
     t\<lparr>tx_buffer := memcpy (tx_buffer t) header HEADER_MAX,
       tx_index := 0, tx_bit := 0, tx_sample := 0, tx_enabled := True\<rparr>"

text \<open>
  Modelled from the spec: \<^verbatim>\<open>Transmitter::end()\<close> is defined in VWI.hh, which is
  absent. The spec says that once all symbols are sent the transmitter is
  disabled.
\<close>

definition Transmitter_end :: "Transmitter \<Rightarrow> Transmitter" where
  "Transmitter_end t = t\<lparr>tx_enabled := False\<rparr>"

text \<open>Lines 402-413 of the interrupt handler: the per-bit output step.\<close>

definition tx_step :: "Transmitter \<Rightarrow> Transmitter" where
  "tx_step t =
     (if tx_index t \<ge> tx_length t
      then (let t1 = Transmitter_end t in t1\<lparr>tx_msg_count := tx_msg_count t1 + 1\<rparr>)
      else (let t1 = t\<lparr>tx_pin := bit (tx_buffer t ! unat (tx_index t)) (unat (tx_bit t)),
                       tx_bit := tx_bit t + 1\<rparr>
            in if tx_bit t1 \<ge> 6
               then t1\<lparr>tx_bit := 0, tx_index := tx_index t1 + 1\<rparr>
               else t1))"

text \<open>
  Lines 399-416: the transmitter's part of one interrupt. The post-increment of
  \<^verbatim>\<open>m_sample\<close> is only evaluated when the transmitter is enabled.
\<close>

definition tx_runs :: "Transmitter \<Rightarrow> bool" where
  "tx_runs t \<longleftrightarrow> tx_enabled t \<and> tx_sample t = 0"

definition tx_tick :: "Transmitter \<Rightarrow> Transmitter" where
  "tx_tick t =
     (let t1 = (if tx_enabled t
                then (let t2 = t\<lparr>tx_sample := tx_sample t + 1\<rparr>
                      in if tx_sample t = 0 then tx_step t2 else t2)
                else t)
      in if tx_sample t1 > 7 then t1\<lparr>tx_sample := 0\<rparr> else t1)"

text \<open>
  \<^verbatim>\<open>Transmitter::await()\<close> (lines 322-333) sleeps until an interrupt and tests
  \<^verbatim>\<open>m_enabled\<close> again. The only code that runs meanwhile and touches the transmitter
  is the interrupt handler, so the wait is the iteration of \<open>tx_tick\<close> while the
  transmitter is enabled. The object is taken to be the registered transmitter
  (the constructor, lines 305-309, registers it).
\<close>

definition bits_left :: "8 word \<Rightarrow> nat" where
  "bits_left b = (if b = 255 then 7 else if b \<ge> 5 then 1 else 6 - unat b)"

definition ticks_left :: "8 word \<Rightarrow> nat" where
  "ticks_left s = (if s = 0 then 0 else if s \<ge> 7 then 1 else 8 - unat s)"

function await :: "Transmitter \<Rightarrow> Transmitter" where
  "await t = (if tx_enabled t then await (tx_tick t) else t)"
  by pat_completeness auto
termination
proof (relation "measures [\<lambda>t. if tx_enabled t then 1 else 0,
                           \<lambda>t. unat (tx_length t) - unat (tx_index t),
                           \<lambda>t. bits_left (tx_bit t),
                           \<lambda>t. ticks_left (tx_sample t)]")
  show "wf (measures [\<lambda>t. if tx_enabled t then 1 else 0,
                      \<lambda>t. unat (tx_length t) - unat (tx_index t),
                      \<lambda>t. bits_left (tx_bit t),
                      \<lambda>t. ticks_left (tx_sample t)])"
    by simp
next
  fix t :: Transmitter
  assume en: "tx_enabled t"
  show "(tx_tick t, t) \<in> measures [\<lambda>t. if tx_enabled t then 1 else 0,
                      \<lambda>t. unat (tx_length t) - unat (tx_index t),
                      \<lambda>t. bits_left (tx_bit t),
                      \<lambda>t. ticks_left (tx_sample t)]"
  proof -
    have inc: "unat (x + 1) = (if x = 255 then 0 else unat x + 1)" for x :: "8 word"
    proof -
      have a: "unat (x + 1) = (unat x + 1) mod 256" by (simp add: unat_word_ariths)
      have b: "unat x < 256" using unsigned_less [of x, where ?'a = nat] by simp
      have c: "x = 255 \<longleftrightarrow> unat x = 255" by (simp add: word_unat_eq_iff)
      show ?thesis using a b c by auto
    qed
    have bnd: "unat (tx_length t) < 256"
      using unsigned_less [of "tx_length t", where ?'a = nat] by simp
    show ?thesis
      using en bnd
      by (auto simp: tx_tick_def tx_step_def Transmitter_end_def Let_def bits_left_def
          ticks_left_def inc word_less_nat_alt word_le_nat_alt)
  qed
qed

declare await.simps [simp del]

text \<open>\<^verbatim>\<open>p[ix++] = sym\<close> with \<^verbatim>\<open>p = m_buffer + HEADER_MAX\<close> (line 340).\<close>

definition put_symbol :: "8 word \<Rightarrow> 8 word list \<times> 8 word \<Rightarrow> 8 word list \<times> 8 word" where
  "put_symbol s6 = (\<lambda>(buf, ix). (buf[HEADER_MAX + unat ix := s6], ix + 1))"

text \<open>Two symbols for one byte, high nibble first (lines 352-353 and 359-360).\<close>

definition put_byte :: "8 word \<Rightarrow> 8 word list \<times> 8 word \<Rightarrow> 8 word list \<times> 8 word" where
  "put_byte b acc =
     put_symbol (symbols ! unat (b AND 0xf)) (put_symbol (symbols ! unat (drop_bit 4 b)) acc)"

text \<open>
  The body of the payload loop (lines 357-361) at index \<open>i\<close>; \<open>bp\<close> is the caller's
  buffer, which holds at least \<open>len\<close> bytes.
\<close>

definition send_byte ::
  "8 word list \<Rightarrow> nat \<Rightarrow> 16 word \<times> 8 word list \<times> 8 word \<Rightarrow> 16 word \<times> 8 word list \<times> 8 word" where
  "send_byte bp i = (\<lambda>(crc, acc). (crc_ccitt_update crc (bp ! i), put_byte (bp ! i) acc))"

text \<open>
  Lines 366-370: the complemented checksum as four symbols, low byte first, each
  byte high nibble first.
\<close>

definition put_fcs :: "16 word \<Rightarrow> 8 word list \<times> 8 word \<Rightarrow> 8 word list \<times> 8 word" where
  "put_fcs crc acc =
     put_symbol (symbols ! unat (drop_bit 8 crc AND 0xf))
       (put_symbol (symbols ! unat (drop_bit 12 crc AND 0xf))
         (put_symbol (symbols ! unat (crc AND 0xf))
           (put_symbol (symbols ! unat (drop_bit 4 crc AND 0xf)) acc)))"

text \<open>
  \<^verbatim>\<open>Transmitter::send(buf, len)\<close> (lines 335-377): the returned \<^verbatim>\<open>bool\<close> and the
  transmitter afterwards. Line 340 writes through the file-level pointer
  \<^verbatim>\<open>transmitter\<close> while \<^verbatim>\<open>begin()\<close> and \<^verbatim>\<open>await()\<close> work on \<^verbatim>\<open>this\<close>; the model is of the
  call on the registered transmitter, where the two are the same object.
\<close>

definition send :: "vwi_consts \<Rightarrow> Transmitter \<Rightarrow> 8 word list \<Rightarrow> 8 word \<Rightarrow> bool \<times> Transmitter" where
  "send k t bp len =
     (let count = len + 3
      in if len > PAYLOAD_MAX k then (False, t)
         else (let t1 = await t;
                   crc0 = crc_ccitt_update 0xffff count;
                   acc0 = put_byte count (tx_buffer t1, 0);
                   (crc1, acc1) = fold (send_byte bp) [0..<unat len] (crc0, acc0);
                   (buf, ix) = put_fcs (NOT crc1) acc1;
                   t2 = t1\<lparr>tx_buffer := buf, tx_length := ix + of_nat HEADER_MAX\<rparr>
               in (True, Transmitter_begin t2)))"

text \<open>
  What the transmitter puts on the air, read back as bytes the way the receiver
  reads it (\<open>decode_byte\<close>): symbols pairwise, first symbol of a pair first.
\<close>

fun frame_bytes :: "8 word list \<Rightarrow> 8 word list" where
  "frame_bytes (s1 # s2 # ss) = decode_byte s1 s2 # frame_bytes ss"
| "frame_bytes ss = []"

definition sent_symbols :: "Transmitter \<Rightarrow> 8 word list" where
  "sent_symbols t = drop HEADER_MAX (take (unat (tx_length t)) (tx_buffer t))"

subsection \<open>Interrupt handler (VWI.cpp lines 384-423)\<close>

text \<open>
  The file-level pointers \<^verbatim>\<open>transmitter\<close> and \<^verbatim>\<open>receiver\<close> (lines 65-67); \<open>None\<close> is the
  null pointer.
\<close>

record vwi_state =
  transmitter :: "Transmitter option"
  receiver :: "Receiver option"

text \<open>The condition of lines 391-393 and, again, of lines 419-421.\<close>

definition rx_may_run :: "vwi_state \<Rightarrow> bool" where
  "rx_may_run s =
     (case receiver s of
        None \<Rightarrow> False
      | Some r \<Rightarrow> m_enabled r \<and> (case transmitter s of None \<Rightarrow> True | Some t \<Rightarrow> \<not> tx_enabled t))"

text \<open>
  One run of the handler. \<open>pin\<close> is the level that \<^verbatim>\<open>receiver->read()\<close> returns. Besides
  the new state the model returns the list of what ran, in the order of the
  statements: the pin read (line 394), the transmitter's output step (lines
  402-413), the call of \<^verbatim>\<open>PLL()\<close> (line 422).
\<close>

datatype isr_event = Sampled | TxStepped | PllRan

definition ISR :: "vwi_consts \<Rightarrow> bool \<Rightarrow> vwi_state \<Rightarrow> isr_event list \<times> vwi_state" where
  "ISR k pin s =
     (let (e1, s1) =
            (if rx_may_run s
             then ([Sampled], s\<lparr>receiver := map_option (\<lambda>r. r\<lparr>m_sample := pin\<rparr>) (receiver s)\<rparr>)
             else ([], s));
          (e2, s2) =
            (case transmitter s1 of
               None \<Rightarrow> ([], s1)
             | Some t \<Rightarrow> (if tx_runs t then [TxStepped] else [],
                          s1\<lparr>transmitter := Some (tx_tick t)\<rparr>));
          (e3, s3) =
            (if rx_may_run s2
             then ([PllRan], s2\<lparr>receiver := map_option (PLL k) (receiver s2)\<rparr>)
             else ([], s2))
      in (e1 @ e2 @ e3, s3))"

subsection \<open>Histories of a receiver\<close>

text \<open>
  What can happen to a receiver object: an interrupt that samples the pin and runs
  the PLL, an interrupt that runs the PLL on the sample of an earlier one (the
  interrupt in which the transmitter finishes), and a call of \<^verbatim>\<open>recv\<close>.
\<close>

datatype rx_event = Tick bool | TickStale | Recv "8 word list" "8 word"

fun rx_step :: "vwi_consts \<Rightarrow> rx_event \<Rightarrow> Receiver \<Rightarrow> Receiver" where
  "rx_step k (Tick pin) r = PLL k (r\<lparr>m_sample := pin\<rparr>)"
| "rx_step k TickStale r = PLL k r"
| "rx_step k (Recv buf len) r = snd (snd (snd (recv r buf len)))"

definition rx_run :: "vwi_consts \<Rightarrow> rx_event list \<Rightarrow> Receiver \<Rightarrow> Receiver" where
  "rx_run k evs r = fold (rx_step k) evs r"

text \<open>
  A receiver between frames with no message pending, whose buffer has the declared
  \<^verbatim>\<open>MESSAGE_MAX\<close> bytes; an object in static storage starts like this.
\<close>

definition rx_idle :: "vwi_consts \<Rightarrow> Receiver \<Rightarrow> bool" where
  "rx_idle k r \<longleftrightarrow> \<not> m_active r \<and> \<not> m_done r \<and> length (m_buffer r) = unat (MESSAGE_MAX k)"

subsection \<open>Auxiliary notions for the statements\<close>

text \<open>The checksum of a whole byte sequence.\<close>

definition crc_of :: "8 word list \<Rightarrow> 16 word" where
  "crc_of bs = fold (\<lambda>b crc. crc_ccitt_update crc b) bs 0xffff"

text \<open>The two symbols \<^verbatim>\<open>send\<close> writes for a byte.\<close>

definition encode_byte :: "8 word \<Rightarrow> 8 word list" where
  "encode_byte b = [symbols ! unat (drop_bit 4 b), symbols ! unat (b AND 0xf)]"

text \<open>
  \<open>written acc syms\<close>: the write position \<^verbatim>\<open>ix\<close> stands behind the symbols \<open>syms\<close>,
  which are what the buffer holds after the header.
\<close>

definition written :: "8 word list \<times> 8 word \<Rightarrow> 8 word list \<Rightarrow> bool" where
  "written acc syms \<longleftrightarrow>
     unat (snd acc) = length syms \<and> take (length syms) (drop HEADER_MAX (fst acc)) = syms"

text \<open>
  Conditions on the state before a PLL step, in the terms of the step itself: the
  advanced ramp reaches \<^verbatim>\<open>RAMP_MAX\<close> (line 133); the window \<^verbatim>\<open>m_bits\<close> after the shift
  of lines 136-141; the twelfth bit of an encoded byte arrives in the active state
  (lines 148-151); the byte decoded from the window then (lines 155-156).
\<close>

definition bit_boundary :: "vwi_consts \<Rightarrow> Receiver \<Rightarrow> bool" where
  "bit_boundary k r \<longleftrightarrow> m_pll_ramp (PLL_ramp k r) \<ge> RAMP_MAX k"

definition window_after :: "vwi_consts \<Rightarrow> Receiver \<Rightarrow> 16 word" where
  "window_after k r = m_bits (PLL_bit k (PLL_ramp k r))"

definition byte_complete :: "vwi_consts \<Rightarrow> Receiver \<Rightarrow> bool" where
  "byte_complete k r \<longleftrightarrow> bit_boundary k r \<and> m_active r \<and> m_bit_count r + 1 \<ge> 12"

definition byte_decoded :: "vwi_consts \<Rightarrow> Receiver \<Rightarrow> 8 word" where
  "byte_decoded k r = window_byte (window_after k r)"

text \<open>
  The payload of the buffered message: what follows the count byte, without the
  two checksum bytes at the end.
\<close>

definition payload :: "Receiver \<Rightarrow> 8 word list" where
  "payload r = take (unat (m_length r) - 3) (drop 1 (m_buffer r))"

text \<open>
  The framing invariant: the buffer has its declared size; a receiver inside a
  frame has no message pending; once the count byte is stored, the count is a
  legal length, sits at the start of the buffer and has not been reached; a
  pending message has exactly the declared length.
\<close>

definition rx_inv :: "vwi_consts \<Rightarrow> Receiver \<Rightarrow> bool" where
  "rx_inv k r \<longleftrightarrow>
     length (m_buffer r) = unat (MESSAGE_MAX k)
     \<and> \<not> (m_active r \<and> m_done r)
     \<and> (m_active r \<and> m_length r \<noteq> 0 \<longrightarrow>
          4 \<le> m_count r \<and> m_count r \<le> MESSAGE_MAX k \<and> m_length r < m_count r
          \<and> m_buffer r ! 0 = m_count r)
     \<and> (m_done r \<longrightarrow>
          4 \<le> m_count r \<and> m_count r \<le> MESSAGE_MAX k \<and> m_length r = m_count r
          \<and> m_buffer r ! 0 = m_count r)"

subsection \<open>Concrete instances\<close>

text \<open>
  The constants of the VirtualWire original, of which VWI.cpp is the port: a ramp
  of 160 with adjustment 9, and payloads of up to 30 bytes.
\<close>

definition vw_consts :: vwi_consts where
  "vw_consts = \<lparr>RAMP_MAX = 160, RAMP_TRANSITION = 80, RAMP_INC_RETARD = 11,
                 RAMP_INC_ADVANCE = 29, PAYLOAD_MAX = 30, MESSAGE_MAX = 33\<rparr>"

definition tx_idle :: Transmitter where
  "tx_idle = \<lparr>tx_buffer = replicate 74 0, tx_length = 0, tx_index = 0, tx_bit = 0,
               tx_sample = 0, tx_enabled = False, tx_msg_count = 0, tx_pin = False\<rparr>"

text \<open>
  Two receivers one sample before a bit boundary, with four high samples counted
  so far: the first sees a fifth high sample (no transition, ramp 140 + 20), the
  second a low one (a late transition, ramp 140 + 29).
\<close>

definition rx_five_high :: Receiver where
  "rx_five_high = \<lparr>m_sample = True, m_last_sample = True, m_pll_ramp = 140, m_integrator = 4,
     m_active = False, m_done = False, m_enabled = True, m_bits = 0x555, m_bit_count = 0,
     m_buffer = replicate 33 0, m_count = 0, m_length = 0, m_bad = 0, m_good = 0\<rparr>"

definition rx_four_high :: Receiver where
  "rx_four_high = rx_five_high\<lparr>m_sample := False\<rparr>"

text \<open>
  Receivers at the twelfth bit of an encoded byte (the sample is low, the ramp
  140): the window becomes \<^verbatim>\<open>0x4cd\<close>, which decodes to 2, or \<^verbatim>\<open>0x58d\<close>, which decodes
  to 4; and one that has three of four bytes.
\<close>

definition rx_count_2 :: Receiver where
  "rx_count_2 = \<lparr>m_sample = False, m_last_sample = False, m_pll_ramp = 140, m_integrator = 0,
     m_active = True, m_done = False, m_enabled = True, m_bits = 0x99a, m_bit_count = 11,
     m_buffer = replicate 33 0, m_count = 0, m_length = 0, m_bad = 0, m_good = 0\<rparr>"

definition rx_count_4 :: Receiver where
  "rx_count_4 = rx_count_2\<lparr>m_bits := 0xb1a\<rparr>"

definition rx_last_byte :: Receiver where
  "rx_last_byte = rx_count_2\<lparr>m_buffer := [4, 0x41, 0xaa] @ replicate 30 0,
                             m_count := 4, m_length := 3\<rparr>"

text \<open>
  A receiver with a complete, valid message pending (count 4, payload \<^verbatim>\<open>0x41\<close>,
  checksum bytes \<^verbatim>\<open>0xaa\<close>, \<^verbatim>\<open>0x3b\<close>), one high sample before the window becomes the
  start marker; and one whose pending message has a payload bit flipped.
\<close>

definition rx_pending_at_marker :: Receiver where
  "rx_pending_at_marker = \<lparr>m_sample = True, m_last_sample = True, m_pll_ramp = 140,
     m_integrator = 4, m_active = False, m_done = True, m_enabled = True, m_bits = 0x670,
     m_bit_count = 0, m_buffer = [4, 0x41, 0xaa, 0x3b] @ replicate 29 0, m_count = 4,
     m_length = 4, m_bad = 0, m_good = 1\<rparr>"

definition rx_bad_fcs :: Receiver where
  "rx_bad_fcs = rx_pending_at_marker\<lparr>m_buffer := [4, 0x40, 0xaa, 0x3b] @ replicate 29 0\<rparr>"

text \<open>
  A transmission heard by a receiver: the symbols \<^verbatim>\<open>send\<close> leaves in the buffer,
  least significant bit first, eight interrupts per bit, into a receiver in its
  zero state.
\<close>

definition symbol_ticks :: "8 word \<Rightarrow> rx_event list" where
  "symbol_ticks s = concat (map (\<lambda>i. replicate 8 (Tick (bit s i))) [0..<6])"

definition air_ticks :: "Transmitter \<Rightarrow> rx_event list" where
  "air_ticks t = concat (map symbol_ticks (take (unat (tx_length t)) (tx_buffer t))) @ [Tick False]"

definition rx_zero :: Receiver where
  "rx_zero = \<lparr>m_sample = False, m_last_sample = False, m_pll_ramp = 0, m_integrator = 0,
     m_active = False, m_done = False, m_enabled = True, m_bits = 0, m_bit_count = 0,
     m_buffer = replicate 33 0, m_count = 0, m_length = 0, m_bad = 0, m_good = 0\<rparr>"

definition rx_heard :: Receiver where
  "rx_heard = rx_run vw_consts (air_ticks (snd (send vw_consts tx_idle [0x41] 1))) rx_zero"

text \<open>A transmitter in the middle of a transmission, and one at its end.\<close>

definition tx_busy :: Transmitter where
  "tx_busy = tx_idle\<lparr>tx_length := 20, tx_index := 3, tx_bit := 2, tx_sample := 5,
                     tx_enabled := True\<rparr>"

definition tx_finishing :: Transmitter where
  "tx_finishing = tx_idle\<lparr>tx_length := 20, tx_index := 20, tx_enabled := True\<rparr>"

section \<open>Properties\<close>

subsection \<open>Codec\<close>

lemma symbol_scan_miss:
  "\<forall>j. i \<le> j \<and> j < 16 \<longrightarrow> symbols ! j \<noteq> s \<Longrightarrow> symbol_scan s i = 0"
proof (induction s i rule: symbol_scan.induct)
  case (1 symbol i)
  show ?case
  proof (cases "i < 16")
    case True
    with "1.prems" have ne: "symbol \<noteq> symbols ! i" by auto
    have "symbol_scan symbol (Suc i) = 0"
      using "1.IH" [OF True ne] "1.prems" by auto
    with True ne show ?thesis by (subst symbol_scan.simps) simp
  next
    case False
    then show ?thesis by (subst symbol_scan.simps) simp
  qed
qed

lemma length_symbols: "length symbols = 16"
  by (simp add: symbols_def)

lemma symbol_6to4_table: "\<forall>n \<in> set [0..<16]. unat (symbol_6to4 (symbols ! n)) = n"
  by code_simp

lemma symbol_6to4_symbols: "n < 16 \<Longrightarrow> symbol_6to4 (symbols ! n) = of_nat n"
proof -
  assume "n < 16"
  then have "unat (symbol_6to4 (symbols ! n)) = n"
    using symbol_6to4_table by simp
  then show ?thesis by (metis of_nat_unat ucast_id)
qed

lemma symbol_6to4_miss: "s \<notin> set symbols \<Longrightarrow> symbol_6to4 s = 0"
  unfolding symbol_6to4_def
  by (rule symbol_scan_miss) (auto simp: length_symbols)

text \<open>
  C4. For every nibble \<open>n < 16\<close> the scan of \<^verbatim>\<open>symbol_6to4\<close> returns \<open>n\<close> on the
  encoded symbol \<^verbatim>\<open>symbols[n]\<close>; the table has 16 distinct entries; and on any value
  that is not in the table (6-bit or not) the scan returns 0.
\<close>

theorem symbol_6to4_inverts_symbols:
  "(n < 16 \<longrightarrow> unat (symbol_6to4 (symbols ! n)) = n)
   \<and> distinct symbols \<and> length symbols = 16
   \<and> (s \<notin> set symbols \<longrightarrow> symbol_6to4 s = 0)"
  using symbol_6to4_table symbol_6to4_miss
  by (simp add: symbols_def)

theorem symbol_6to4_inverts_symbols_witness:
  "(11::nat) < 16 \<and> unat (symbol_6to4 (symbols ! 11)) = 11
   \<and> (0x3f::8 word) \<notin> set symbols \<and> symbol_6to4 0x3f = 0"
  using symbol_6to4_inverts_symbols [of 11 "0x3f"]
  by (simp add: symbols_def)

subsection \<open>Checksum residue\<close>

lemma mask8_numeral: "(255 :: 8 word) = mask 8"
  by (simp add: mask_eq_exp_minus_1)

lemma lo8_complement: "(ucast (NOT c) :: 8 word) XOR ucast (c :: 16 word) = 0xFF"
  unfolding mask8_numeral by (rule bit_word_eqI) (auto simp add: bit_simps)

lemma hi8_complement:
  "(ucast (drop_bit 8 (NOT c)) :: 8 word) XOR ucast (drop_bit 8 (c :: 16 word)) = 0xFF"
  unfolding mask8_numeral by (rule bit_word_eqI) (auto simp add: bit_simps)

lemma drop_bit_16: "drop_bit 8 (drop_bit 8 (c :: 16 word)) = 0"
  by (rule bit_word_eqI) (auto simp add: bit_simps dest: bit_imp_le_length)

lemma crc_after_fcs_lo:
  "crc_ccitt_update c (ucast (NOT c)) = (0x0F00 OR drop_bit 8 c) XOR 0x78"
  unfolding crc_ccitt_update_def Let_def by (simp add: lo8_complement)

lemma crc_after_fcs_lo_hi8:
  "drop_bit 8 ((0x0F00 OR drop_bit 8 c) XOR 0x78 :: 16 word) = 0x0F"
  by (simp add: drop_bit_xor drop_bit_or drop_bit_16)

lemma crc_after_fcs_lo_lo8:
  "(ucast ((0x0F00 OR drop_bit 8 c) XOR 0x78 :: 16 word) :: 8 word) = ucast (drop_bit 8 c) XOR 0x78"
proof -
  have z: "(3840 :: 8 word) = 0" by simp
  show ?thesis by (simp add: unsigned_xor_eq unsigned_or_eq z)
qed

lemma fcs_hi_data:
  "(ucast (drop_bit 8 (NOT c)) :: 8 word) XOR (ucast (drop_bit 8 (c :: 16 word)) XOR 0x78) = 0x87"
proof -
  have "(ucast (drop_bit 8 (NOT c)) :: 8 word) XOR (ucast (drop_bit 8 c) XOR 0x78)
      = (ucast (drop_bit 8 (NOT c)) XOR ucast (drop_bit 8 c)) XOR 0x78"
    by (simp add: xor.assoc)
  also have "\<dots> = 0xFF XOR 0x78" by (simp only: hi8_complement)
  also have "\<dots> = 0x87" by simp
  finally show ?thesis .
qed

lemma crc_residue:
  "crc_ccitt_update (crc_ccitt_update c (ucast (NOT c))) (ucast (drop_bit 8 (NOT c))) = 0xF0B8"
  unfolding crc_after_fcs_lo
  unfolding crc_ccitt_update_def Let_def crc_after_fcs_lo_lo8 crc_after_fcs_lo_hi8 fcs_hi_data
  by simp

lemma crc_of_residue:
  "crc_of (bs @ [ucast (NOT (crc_of bs)), ucast (drop_bit 8 (NOT (crc_of bs)))]) = 0xF0B8"
  by (simp add: crc_of_def crc_residue)

lemma CRC_whole: "length bs = unat n \<Longrightarrow> CRC bs n = crc_of bs"
  by (simp add: CRC_def crc_of_def)

subsection \<open>Nibbles and symbols\<close>

lemma mask4_numeral8: "(15 :: 8 word) = mask 4"
  by (simp add: mask_eq_exp_minus_1)

lemma mask4_numeral16: "(15 :: 16 word) = mask 4"
  by (simp add: mask_eq_exp_minus_1)

lemma mask4_numeral: "(15 :: 'a::len word) = mask 4"
  by (simp add: mask_eq_exp_minus_1)

lemma lo_nibble_less: "unat ((b :: 'a::len word) AND 0xf) < 16"
proof -
  have "unat (b AND mask 4) = take_bit 4 (unat b)"
    by (simp add: unsigned_take_bit_eq flip: take_bit_eq_mask)
  moreover have "take_bit 4 (unat b) < 2 ^ 4"
    by (rule take_bit_nat_less_exp)
  ultimately show ?thesis by (simp add: mask4_numeral)
qed

lemma hi_nibble_less: "unat (drop_bit 4 (b :: 8 word)) < 16"
proof -
  have "unat b < 256" using unsigned_less [of b, where ?'a = nat] by simp
  moreover have "unat (drop_bit 4 b) = unat b div 2 ^ 4"
    by (simp only: unat_drop_bit_eq) (simp add: drop_bit_eq_div)
  ultimately show ?thesis by simp
qed

lemma byte_of_nibbles:
  "push_bit 4 (drop_bit 4 b) OR (b AND 0xf) = (b :: 8 word)"
  unfolding mask4_numeral
  by (rule bit_word_eqI) (auto simp add: bit_simps)

lemma decode_byte_symbols:
  "decode_byte (symbols ! unat (drop_bit 4 b)) (symbols ! unat (b AND 0xf)) = b"
  by (simp add: decode_byte_def symbol_6to4_symbols hi_nibble_less lo_nibble_less byte_of_nibbles)

lemma lo8_of_nibbles:
  "push_bit 4 (ucast (drop_bit 4 c AND 0xf)) OR ucast (c AND 0xf) = (ucast (c :: 16 word) :: 8 word)"
  unfolding mask4_numeral
  by (rule bit_word_eqI) (auto simp add: bit_simps)

lemma hi8_of_nibbles:
  "push_bit 4 (ucast (drop_bit 12 c AND 0xf)) OR ucast (drop_bit 8 c AND 0xf)
     = (ucast (drop_bit 8 (c :: 16 word)) :: 8 word)"
  unfolding mask4_numeral
  by (rule bit_word_eqI) (auto simp add: bit_simps)

lemma decode_fcs_lo:
  "decode_byte (symbols ! unat (drop_bit 4 c AND 0xf)) (symbols ! unat (c AND 0xf)) = ucast (c :: 16 word)"
  by (simp add: decode_byte_def symbol_6to4_symbols lo_nibble_less lo8_of_nibbles)

lemma decode_fcs_hi:
  "decode_byte (symbols ! unat (drop_bit 12 c AND 0xf)) (symbols ! unat (drop_bit 8 c AND 0xf))
     = ucast (drop_bit 8 (c :: 16 word))"
  by (simp add: decode_byte_def symbol_6to4_symbols lo_nibble_less hi8_of_nibbles)

subsection \<open>Frame assembly in send\<close>

lemma unat_inc8: "unat (x :: 8 word) < 255 \<Longrightarrow> unat (x + 1) = unat x + 1"
  by (simp add: unat_word_ariths)

lemma length_put_symbol [simp]: "length (fst (put_symbol s acc)) = length (fst acc)"
  by (simp add: put_symbol_def split: prod.split)

lemma put_symbol_written:
  assumes "written acc syms" and "HEADER_MAX + length syms < length (fst acc)"
    and "length syms < 255"
  shows "written (put_symbol s acc) (syms @ [s])"
proof -
  obtain buf ix where acc: "acc = (buf, ix)" by (cases acc)
  from assms acc have ix: "unat ix = length syms"
    and tk: "take (length syms) (drop HEADER_MAX buf) = syms"
    and len: "HEADER_MAX + length syms < length buf"
    by (simp_all add: written_def)
  have "unat (ix + 1) = length syms + 1"
    using ix assms(3) by (simp add: unat_inc8)
  moreover have "take (Suc (length syms)) (drop HEADER_MAX (buf[HEADER_MAX + length syms := s]))
      = syms @ [s]"
    using tk len by (simp add: take_Suc_conv_app_nth drop_update_swap)
  ultimately show ?thesis
    by (simp add: written_def put_symbol_def acc ix)
qed

lemma length_put_byte [simp]: "length (fst (put_byte b acc)) = length (fst acc)"
  by (simp add: put_byte_def)

lemma put_byte_written:
  assumes "written acc syms" and "HEADER_MAX + length syms + 1 < length (fst acc)"
    and "length syms + 1 < 255"
  shows "written (put_byte b acc) (syms @ encode_byte b)"
proof -
  have "written (put_symbol (symbols ! unat (drop_bit 4 b)) acc)
          (syms @ [symbols ! unat (drop_bit 4 b)])"
    using assms by (intro put_symbol_written) simp_all
  then have "written (put_byte b acc)
          ((syms @ [symbols ! unat (drop_bit 4 b)]) @ [symbols ! unat (b AND 0xf)])"
    unfolding put_byte_def using assms by (intro put_symbol_written) simp_all
  then show ?thesis by (simp add: encode_byte_def)
qed

lemma length_put_fcs [simp]: "length (fst (put_fcs c acc)) = length (fst acc)"
  by (simp add: put_fcs_def)

lemma put_fcs_written:
  assumes "written acc syms" and "HEADER_MAX + length syms + 3 < length (fst acc)"
    and "length syms + 3 < 255"
  shows "written (put_fcs c acc)
           (syms @ [symbols ! unat (drop_bit 4 c AND 0xf), symbols ! unat (c AND 0xf),
                    symbols ! unat (drop_bit 12 c AND 0xf), symbols ! unat (drop_bit 8 c AND 0xf)])"
proof -
  let ?a = "symbols ! unat (drop_bit 4 c AND 0xf)"
  let ?b = "symbols ! unat (c AND 0xf)"
  let ?c = "symbols ! unat (drop_bit 12 c AND 0xf)"
  let ?d = "symbols ! unat (drop_bit 8 c AND 0xf)"
  have 1: "written (put_symbol ?a acc) (syms @ [?a])"
    using assms by (intro put_symbol_written) simp_all
  have 2: "written (put_symbol ?b (put_symbol ?a acc)) ((syms @ [?a]) @ [?b])"
    using 1 assms by (intro put_symbol_written) simp_all
  have 3: "written (put_symbol ?c (put_symbol ?b (put_symbol ?a acc))) (((syms @ [?a]) @ [?b]) @ [?c])"
    using 2 assms by (intro put_symbol_written) simp_all
  have 4: "written (put_symbol ?d (put_symbol ?c (put_symbol ?b (put_symbol ?a acc))))
             ((((syms @ [?a]) @ [?b]) @ [?c]) @ [?d])"
    using 3 assms by (intro put_symbol_written) simp_all
  then show ?thesis by (simp add: put_fcs_def)
qed

lemma send_loop_written:
  assumes "n \<le> length bp" and "written acc syms"
    and "HEADER_MAX + length syms + 2 * n \<le> length (fst acc)"
    and "length syms + 2 * n \<le> 255"
  shows "\<exists>acc'. fold (send_byte bp) [0..<n] (crc, acc)
            = (fold (\<lambda>b crc. crc_ccitt_update crc b) (take n bp) crc, acc')
          \<and> written acc' (syms @ concat (map encode_byte (take n bp)))
          \<and> length (fst acc') = length (fst acc)"
  using assms
proof (induction n)
  case 0
  then show ?case by simp
next
  case (Suc n)
  from Suc.prems have n: "n < length bp" by simp
  from Suc.IH Suc.prems obtain acc' where
    f: "fold (send_byte bp) [0..<n] (crc, acc)
          = (fold (\<lambda>b crc. crc_ccitt_update crc b) (take n bp) crc, acc')"
    and w: "written acc' (syms @ concat (map encode_byte (take n bp)))"
    and l: "length (fst acc') = length (fst acc)"
    by auto
  have len: "length (concat (map encode_byte (take n bp))) = 2 * n"
    using n by (induction bp arbitrary: n) (auto simp: encode_byte_def take_Cons split: nat.splits)
  have w': "written (put_byte (bp ! n) acc')
              ((syms @ concat (map encode_byte (take n bp))) @ encode_byte (bp ! n))"
    using w l len Suc.prems by (intro put_byte_written) simp_all
  have "fold (send_byte bp) [0..<Suc n] (crc, acc)
      = send_byte bp n (fold (\<lambda>b crc. crc_ccitt_update crc b) (take n bp) crc, acc')"
    by (simp add: f)
  also have "\<dots> = (fold (\<lambda>b crc. crc_ccitt_update crc b) (take (Suc n) bp) crc,
                     put_byte (bp ! n) acc')"
    using n by (simp add: send_byte_def take_Suc_conv_app_nth)
  finally have f': "fold (send_byte bp) [0..<Suc n] (crc, acc)
      = (fold (\<lambda>b crc. crc_ccitt_update crc b) (take (Suc n) bp) crc, put_byte (bp ! n) acc')" .
  have "written (put_byte (bp ! n) acc') (syms @ concat (map encode_byte (take (Suc n) bp)))"
    using w' n by (simp add: take_Suc_conv_app_nth)
  with f' l show ?case by simp
qed

lemma frame_bytes_encoded:
  "frame_bytes (concat (map encode_byte bs) @ rest) = bs @ frame_bytes rest"
  by (induction bs) (simp_all add: encode_byte_def decode_byte_symbols)

lemma tx_buffer_tx_tick [simp]: "tx_buffer (tx_tick t) = tx_buffer t"
  by (simp add: tx_tick_def tx_step_def Transmitter_end_def Let_def)

lemma tx_buffer_await [simp]: "tx_buffer (await t) = tx_buffer t"
  by (induction t rule: await.induct) (subst await.simps, simp)


lemma sent_symbols_begin:
  assumes "written (buf, ix) syms" and "length syms + HEADER_MAX \<le> 255"
    and "HEADER_MAX + length syms \<le> length buf"
  shows "sent_symbols (Transmitter_begin (t\<lparr>tx_buffer := buf, tx_length := ix + of_nat HEADER_MAX\<rparr>))
           = syms"
proof -
  from assms have ix: "unat ix = length syms"
    and tk: "take (length syms) (drop HEADER_MAX buf) = syms"
    by (simp_all add: written_def)
  have "unat (ix + 8) = (unat ix + 8) mod 256"
    by (simp add: unat_word_ariths)
  with ix assms(2) have u: "unat (ix + 8) = length syms + 8"
    by (simp add: HEADER_MAX_def)
  have "drop 8 (take (length syms + 8) (header @ drop 8 buf)) = take (length syms) (drop 8 buf)"
    by (simp add: header_def drop_take)
  with u tk show ?thesis
    by (simp add: sent_symbols_def Transmitter_begin_def memcpy_def HEADER_MAX_def header_def)
qed

text \<open>
  C2. For every payload of \<open>len \<le> PAYLOAD_MAX\<close> bytes, \<^verbatim>\<open>send\<close> succeeds and the symbols
  it leaves for transmission, read back as bytes, are the count byte \<open>len + 3\<close>, the
  payload and the complemented CRC-CCITT of count and payload, low byte first; the
  receive-side \<^verbatim>\<open>CRC\<close> over this whole sequence is \<^verbatim>\<open>0xF0B8\<close>, the constant \<^verbatim>\<open>recv\<close>
  compares with. The hypotheses say what the absent header has to provide: a
  payload maximum for which the 8-bit symbol index does not wrap, and a symbol
  buffer that holds the largest frame.
\<close>

theorem send_frame_crc_residue:
  assumes "len \<le> PAYLOAD_MAX k"
    and "unat (PAYLOAD_MAX k) \<le> 120"
    and "HEADER_MAX + 2 * unat (PAYLOAD_MAX k) + 6 \<le> length (tx_buffer t)"
    and "unat len \<le> length bp"
  shows "let frame = frame_bytes (sent_symbols (snd (send k t bp len)));
             body = (len + 3) # take (unat len) bp;
             fcs = NOT (crc_of body)
         in fst (send k t bp len)
            \<and> frame = body @ [ucast fcs, ucast (drop_bit 8 fcs)]
            \<and> CRC frame (len + 3) = 0xF0B8"
proof -
  let ?n = "unat len"
  let ?count = "len + 3"
  let ?body = "?count # take ?n bp"
  let ?fcs = "NOT (crc_of ?body)"
  let ?t1 = "await t"
  from assms(1) have n_le: "?n \<le> unat (PAYLOAD_MAX k)"
    by (simp add: word_le_nat_alt)
  with assms(2) have n120: "?n \<le> 120" by simp
  from n_le assms(3) have room: "HEADER_MAX + 2 * ?n + 6 \<le> length (tx_buffer t)" by simp
  have w0: "written (put_byte ?count (tx_buffer t, 0)) ([] @ encode_byte ?count)"
    using room by (intro put_byte_written) (simp_all add: written_def)
  from send_loop_written [OF assms(4), of "put_byte ?count (tx_buffer t, 0)"
      "[] @ encode_byte ?count" "crc_ccitt_update 0xffff ?count"] w0 room n120
  obtain acc1 where
    f: "fold (send_byte bp) [0..<?n] (crc_ccitt_update 0xffff ?count,
                                       put_byte ?count (tx_buffer t, 0))
          = (fold (\<lambda>b crc. crc_ccitt_update crc b) (take ?n bp)
               (crc_ccitt_update 0xffff ?count), acc1)"
    and w1: "written acc1 (([] @ encode_byte ?count) @ concat (map encode_byte (take ?n bp)))"
    and l1: "length (fst acc1) = length (tx_buffer t)"
    by (auto simp: encode_byte_def)
  have crc1: "fold (\<lambda>b crc. crc_ccitt_update crc b) (take ?n bp) (crc_ccitt_update 0xffff ?count)
      = crc_of ?body"
    by (simp add: crc_of_def)
  have len_enc: "length (concat (map encode_byte bs)) = 2 * length bs" for bs
    by (induction bs) (simp_all add: encode_byte_def)
  let ?syms = "concat (map encode_byte ?body)"
  let ?tail = "[symbols ! unat (drop_bit 4 ?fcs AND 0xf), symbols ! unat (?fcs AND 0xf),
                symbols ! unat (drop_bit 12 ?fcs AND 0xf), symbols ! unat (drop_bit 8 ?fcs AND 0xf)]"
  have w1': "written acc1 ?syms" using w1 by simp
  have ls: "length ?syms = 2 * ?n + 2"
    using assms(4) by (simp add: len_enc encode_byte_def)
  have w2: "written (put_fcs ?fcs acc1) (?syms @ ?tail)"
    using w1' l1 ls room n120 by (intro put_fcs_written) simp_all
  obtain buf ix where acc2: "put_fcs ?fcs acc1 = (buf, ix)" by (cases "put_fcs ?fcs acc1")
  have lb: "length buf = length (tx_buffer t)"
    using acc2 l1 by (metis length_put_fcs fst_conv)
  have snd_eq: "send k t bp len
      = (True, Transmitter_begin (?t1\<lparr>tx_buffer := buf, tx_length := ix + of_nat HEADER_MAX\<rparr>))"
    using assms(1) by (simp add: send_def Let_def f crc1 acc2 not_less [symmetric])
  have ss: "sent_symbols (snd (send k t bp len)) = ?syms @ ?tail"
    unfolding snd_eq snd_conv
    using w2 ls lb room n120 unfolding acc2
    by (intro sent_symbols_begin) (simp_all add: HEADER_MAX_def)
  have tail: "frame_bytes ?tail = [ucast ?fcs, ucast (drop_bit 8 ?fcs)]"
    by (simp add: decode_fcs_lo decode_fcs_hi)
  have fr: "frame_bytes (sent_symbols (snd (send k t bp len)))
      = ?body @ [ucast ?fcs, ucast (drop_bit 8 ?fcs)]"
    unfolding ss frame_bytes_encoded tail ..
  have u3: "unat ?count = ?n + 3"
    using n120 by (simp add: unat_word_ariths)
  have "CRC (?body @ [ucast ?fcs, ucast (drop_bit 8 ?fcs)]) ?count
      = crc_of (?body @ [ucast ?fcs, ucast (drop_bit 8 ?fcs)])"
    using assms(4) by (intro CRC_whole) (simp add: u3)
  also have "\<dots> = 0xF0B8" by (rule crc_of_residue)
  finally have res: "CRC (?body @ [ucast ?fcs, ucast (drop_bit 8 ?fcs)]) ?count = 0xF0B8" .
  show ?thesis
    unfolding Let_def fr using res by (simp add: snd_eq)
qed


theorem send_frame_crc_residue_witness:
  "(3 :: 8 word) \<le> PAYLOAD_MAX vw_consts
   \<and> unat (PAYLOAD_MAX vw_consts) \<le> 120
   \<and> HEADER_MAX + 2 * unat (PAYLOAD_MAX vw_consts) + 6 \<le> length (tx_buffer tx_idle)
   \<and> unat (3 :: 8 word) \<le> length [1, 2, 3 :: 8 word]
   \<and> fst (send vw_consts tx_idle [1, 2, 3] 3)
   \<and> CRC (frame_bytes (sent_symbols (snd (send vw_consts tx_idle [1, 2, 3] 3)))) 6 = 0xF0B8"
proof -
  have h1: "(3 :: 8 word) \<le> PAYLOAD_MAX vw_consts" by (simp add: vw_consts_def)
  have h2: "unat (PAYLOAD_MAX vw_consts) \<le> 120" by (simp add: vw_consts_def)
  have h3: "HEADER_MAX + 2 * unat (PAYLOAD_MAX vw_consts) + 6 \<le> length (tx_buffer tx_idle)"
    by (simp add: vw_consts_def tx_idle_def HEADER_MAX_def)
  have h4: "unat (3 :: 8 word) \<le> length [1, 2, 3 :: 8 word]" by simp
  from send_frame_crc_residue [OF h1 h2 h3 h4]
  have "fst (send vw_consts tx_idle [1, 2, 3] 3)"
    and "CRC (frame_bytes (sent_symbols (snd (send vw_consts tx_idle [1, 2, 3] 3)))) (3 + 3) = 0xF0B8"
    unfolding Let_def by blast+
  with h1 h2 h3 h4 show ?thesis by simp
qed

subsection \<open>The PLL step, piece by piece\<close>

lemma PLL_ramp_fields [simp]:
  "m_active (PLL_ramp k r) = m_active r"
  "m_done (PLL_ramp k r) = m_done r"
  "m_enabled (PLL_ramp k r) = m_enabled r"
  "m_bits (PLL_ramp k r) = m_bits r"
  "m_bit_count (PLL_ramp k r) = m_bit_count r"
  "m_buffer (PLL_ramp k r) = m_buffer r"
  "m_count (PLL_ramp k r) = m_count r"
  "m_length (PLL_ramp k r) = m_length r"
  "m_bad (PLL_ramp k r) = m_bad r"
  "m_good (PLL_ramp k r) = m_good r"
  "m_sample (PLL_ramp k r) = m_sample r"
  "m_last_sample (PLL_ramp k r) = m_sample r"
  by (simp_all add: PLL_ramp_def Let_def)

lemma PLL_ramp_integrator:
  "m_integrator (PLL_ramp k r) = m_integrator r + (if m_sample r then 1 else 0)"
  by (simp add: PLL_ramp_def Let_def)

lemma PLL_ramp_ramp: "m_pll_ramp (PLL_ramp k r) = m_pll_ramp r + ramp_inc k r"
  by (simp add: PLL_ramp_def ramp_inc_def Let_def)

lemma PLL_bit_fields [simp]:
  "m_active (PLL_bit k r) = m_active r"
  "m_done (PLL_bit k r) = m_done r"
  "m_enabled (PLL_bit k r) = m_enabled r"
  "m_bit_count (PLL_bit k r) = m_bit_count r"
  "m_buffer (PLL_bit k r) = m_buffer r"
  "m_count (PLL_bit k r) = m_count r"
  "m_length (PLL_bit k r) = m_length r"
  "m_bad (PLL_bit k r) = m_bad r"
  "m_good (PLL_bit k r) = m_good r"
  "m_sample (PLL_bit k r) = m_sample r"
  "m_last_sample (PLL_bit k r) = m_last_sample r"
  "m_integrator (PLL_bit k r) = 0"
  "m_pll_ramp (PLL_bit k r) = m_pll_ramp r - RAMP_MAX k"
  by (simp_all add: PLL_bit_def Let_def)

lemma PLL_bit_bits:
  "m_bits (PLL_bit k r) = drop_bit 1 (m_bits r) OR (if m_integrator r \<ge> 5 then 0x800 else 0)"
  by (simp add: PLL_bit_def Let_def)

lemma PLL_store_fields [simp]:
  "m_bits (PLL_store d r) = m_bits r"
  "m_pll_ramp (PLL_store d r) = m_pll_ramp r"
  "m_integrator (PLL_store d r) = m_integrator r"
  "m_enabled (PLL_store d r) = m_enabled r"
  "m_sample (PLL_store d r) = m_sample r"
  "m_last_sample (PLL_store d r) = m_last_sample r"
  "m_count (PLL_store d r) = m_count r"
  "m_bad (PLL_store d r) = m_bad r"
  "m_bit_count (PLL_store d r) = 0"
  "m_buffer (PLL_store d r) = (m_buffer r)[unat (m_length r) := d]"
  "m_length (PLL_store d r) = m_length r + 1"
  by (simp_all add: PLL_store_def Let_def)

lemma PLL_store_end:
  "m_length r + 1 \<ge> m_count r \<Longrightarrow>
     m_done (PLL_store d r) \<and> \<not> m_active (PLL_store d r) \<and> m_good (PLL_store d r) = m_good r + 1"
  by (simp add: PLL_store_def Let_def)

lemma PLL_store_more:
  "\<not> m_length r + 1 \<ge> m_count r \<Longrightarrow>
     m_done (PLL_store d r) = m_done r \<and> m_active (PLL_store d r) = m_active r
     \<and> m_good (PLL_store d r) = m_good r"
  by (simp add: PLL_store_def Let_def)

lemma PLL_byte_fields [simp]:
  "m_bits (PLL_byte k r) = m_bits r"
  "m_pll_ramp (PLL_byte k r) = m_pll_ramp r"
  "m_integrator (PLL_byte k r) = m_integrator r"
  "m_enabled (PLL_byte k r) = m_enabled r"
  "m_sample (PLL_byte k r) = m_sample r"
  "m_last_sample (PLL_byte k r) = m_last_sample r"
  by (simp_all add: PLL_byte_def Let_def)

lemma PLL_frame_fields [simp]:
  "m_bits (PLL_frame k r) = m_bits r"
  "m_pll_ramp (PLL_frame k r) = m_pll_ramp r"
  "m_integrator (PLL_frame k r) = m_integrator r"
  "m_enabled (PLL_frame k r) = m_enabled r"
  "m_sample (PLL_frame k r) = m_sample r"
  "m_last_sample (PLL_frame k r) = m_last_sample r"
  by (simp_all add: PLL_frame_def Let_def)

lemma PLL_no_boundary: "\<not> bit_boundary k r \<Longrightarrow> PLL k r = PLL_ramp k r"
  by (simp add: PLL_def bit_boundary_def Let_def)

lemma PLL_boundary: "bit_boundary k r \<Longrightarrow> PLL k r = PLL_frame k (PLL_bit k (PLL_ramp k r))"
  by (simp add: PLL_def bit_boundary_def Let_def)

lemma PLL_frame_byte:
  "m_active r \<Longrightarrow> m_bit_count r + 1 \<ge> 12 \<Longrightarrow>
     PLL_frame k r = PLL_byte k (r\<lparr>m_bit_count := m_bit_count r + 1\<rparr>)"
  by (simp add: PLL_frame_def Let_def)

lemma PLL_byte_complete:
  "byte_complete k r \<Longrightarrow>
     PLL k r = PLL_byte k ((PLL_bit k (PLL_ramp k r))\<lparr>m_bit_count := m_bit_count r + 1\<rparr>)"
  by (simp add: byte_complete_def PLL_boundary PLL_frame_byte)

subsection \<open>Bit decision\<close>

lemma bit11_numeral: "(0x800 :: 16 word) = push_bit 11 1"
  by simp

lemma window_top_bit:
  assumes "w < (0x1000 :: 16 word)"
  shows "bit (drop_bit 1 w OR (if c then 0x800 else 0)) 11 \<longleftrightarrow> c"
proof -
  have "unat w < 2 ^ 12" using assms by (simp add: word_less_nat_alt)
  then have "\<not> bit (unat w) 12"
    by (metis bit_take_bit_iff less_irrefl take_bit_nat_eq_self)
  then have "\<not> bit w 12" by (simp add: bit_unsigned_iff)
  then show ?thesis
    unfolding bit11_numeral by (simp add: bit_simps)
qed

lemma window_12_bits:
  assumes "w < (0x1000 :: 16 word)"
  shows "drop_bit 1 w OR (if c then 0x800 else 0) < 0x1000"
proof -
  have w: "w AND mask 12 = w"
    using assms less_mask_eq [of w 12] by simp
  have hi: "n < 12" if "bit w n" for n
    using that by (metis bit_and_iff bit_mask_iff w)
  have top: "bit (2048 :: int) n \<longleftrightarrow> n = 11" for n
  proof -
    have "(2048 :: int) = 2 ^ 11" by simp
    then show ?thesis by (simp only: bit_exp_iff) auto
  qed
  let ?x = "drop_bit 1 w OR (if c then 0x800 else 0)"
  have "?x AND mask 12 = ?x"
    by (rule bit_word_eqI) (auto simp add: bit_simps dest: hi top [THEN iffD1])
  then have "?x < 2 ^ 12"
    using and_mask_less_size [of 12 ?x] by (simp add: word_size)
  then show ?thesis by simp
qed

text \<open>
  C6. One PLL step. With \<open>integ\<close> the integrator after counting the current sample
  and \<open>ramp\<close> the ramp after the advance (by the retard increment on a transition
  below \<^verbatim>\<open>RAMP_TRANSITION\<close>, by the advance increment on any other transition, by
  \<^verbatim>\<open>RAMP_MAX\<close>/8 without a transition; all in 8-bit arithmetic): if \<open>ramp\<close> is at
  least \<^verbatim>\<open>RAMP_MAX\<close>, the window is shifted right by one with \<^verbatim>\<open>0x800\<close> or-ed in exactly
  when \<open>integ \<ge> 5\<close>, \<^verbatim>\<open>RAMP_MAX\<close> is subtracted from the ramp (the remainder stays, as
  a number) and the integrator is 0; for a 12-bit window the new top bit (bit 11)
  is 1 exactly when \<open>integ \<ge> 5\<close>, and the window stays within 12 bits. Below
  \<^verbatim>\<open>RAMP_MAX\<close> only the ramp and the integrator change.
\<close>

theorem PLL_ramp_and_bit_decision:
  "let integ = m_integrator r + (if m_sample r then 1 else 0);
       ramp = m_pll_ramp r
              + (if m_sample r \<noteq> m_last_sample r
                 then (if m_pll_ramp r < RAMP_TRANSITION k
                       then RAMP_INC_RETARD k else RAMP_INC_ADVANCE k)
                 else RAMP_MAX k div 8);
       r' = PLL k r
   in if ramp \<ge> RAMP_MAX k
      then m_bits r' = drop_bit 1 (m_bits r) OR (if integ \<ge> 5 then 0x800 else 0)
           \<and> m_pll_ramp r' = ramp - RAMP_MAX k
           \<and> unat (m_pll_ramp r') = unat ramp - unat (RAMP_MAX k)
           \<and> m_integrator r' = 0
           \<and> (m_bits r < 0x1000 \<longrightarrow> (bit (m_bits r') 11 \<longleftrightarrow> integ \<ge> 5) \<and> m_bits r' < 0x1000)
      else m_bits r' = m_bits r \<and> m_pll_ramp r' = ramp \<and> m_integrator r' = integ"
proof -
  let ?integ = "m_integrator r + (if m_sample r then 1 else 0)"
  let ?ramp = "m_pll_ramp r + ramp_inc k r"
  have ramp: "m_pll_ramp r
              + (if m_sample r \<noteq> m_last_sample r
                 then (if m_pll_ramp r < RAMP_TRANSITION k
                       then RAMP_INC_RETARD k else RAMP_INC_ADVANCE k)
                 else RAMP_MAX k div 8) = ?ramp"
    by (simp add: ramp_inc_def RAMP_INC_def)
  show ?thesis
  proof (cases "bit_boundary k r")
    case True
    then have ge: "?ramp \<ge> RAMP_MAX k"
      by (simp add: bit_boundary_def PLL_ramp_ramp)
    have P: "PLL k r = PLL_frame k (PLL_bit k (PLL_ramp k r))"
      using True by (rule PLL_boundary)
    have b: "m_bits (PLL k r) = drop_bit 1 (m_bits r) OR (if ?integ \<ge> 5 then 0x800 else 0)"
      by (simp add: P PLL_bit_bits PLL_ramp_integrator)
    have s: "unat (?ramp - RAMP_MAX k) = unat ?ramp - unat (RAMP_MAX k)"
      using ge by (simp add: unat_sub)
    show ?thesis
      unfolding Let_def ramp
      using ge b s window_top_bit [of "m_bits r" "?integ \<ge> 5"]
        window_12_bits [of "m_bits r" "?integ \<ge> 5"]
      by (simp add: P PLL_ramp_ramp)
  next
    case False
    then have lt: "\<not> ?ramp \<ge> RAMP_MAX k"
      by (simp add: bit_boundary_def PLL_ramp_ramp)
    show ?thesis
      unfolding Let_def ramp
      using lt by (simp add: PLL_no_boundary [OF False] PLL_ramp_ramp PLL_ramp_integrator)
  qed
qed


theorem PLL_ramp_and_bit_decision_witness:
  "m_bits rx_five_high < 0x1000 \<and> bit (m_bits (PLL vw_consts rx_five_high)) 11
   \<and> m_pll_ramp (PLL vw_consts rx_five_high) = 0
   \<and> m_integrator (PLL vw_consts rx_five_high) = 0
   \<and> m_bits rx_four_high < 0x1000 \<and> \<not> bit (m_bits (PLL vw_consts rx_four_high)) 11
   \<and> m_pll_ramp (PLL vw_consts rx_four_high) = 9"
  using PLL_ramp_and_bit_decision [of rx_five_high vw_consts]
    PLL_ramp_and_bit_decision [of rx_four_high vw_consts]
  by (simp add: rx_five_high_def rx_four_high_def vw_consts_def Let_def)

subsection \<open>Framing\<close>

lemma PLL_inactive:
  "\<not> m_active r \<Longrightarrow> m_done (PLL k r) \<longrightarrow> m_done r"
  by (simp add: PLL_def PLL_frame_def Let_def)

text \<open>
  C3. When the twelfth bit of an encoded byte arrives in the active state, with
  \<open>data\<close> the byte decoded from the window: if it is the first byte of the frame
  (\<^verbatim>\<open>m_length\<close> is 0) and \<open>data\<close> is below 4 or above \<^verbatim>\<open>MESSAGE_MAX\<close>, the step leaves
  the active state and increments \<^verbatim>\<open>m_bad\<close>, while \<^verbatim>\<open>m_done\<close>, the buffer, the length
  and \<^verbatim>\<open>m_good\<close> stay as they were; if it is the first byte and lies in
  \<open>[4, MESSAGE_MAX]\<close>, it becomes \<^verbatim>\<open>m_count\<close>; every byte that is not rejected is
  stored at index \<^verbatim>\<open>m_length\<close>, which is incremented, and when the new length
  reaches \<^verbatim>\<open>m_count\<close> the step sets \<^verbatim>\<open>m_done\<close>, leaves the active state and increments
  \<^verbatim>\<open>m_good\<close>, and otherwise leaves all three alone. A PLL step outside the active
  state never sets \<^verbatim>\<open>m_done\<close> (last conjunct, for any receiver \<open>q\<close>).
\<close>

theorem PLL_first_byte_is_length:
  assumes "byte_complete k r"
  shows "let data = byte_decoded k r; r' = PLL k r
         in (m_length r = 0 \<and> (data < 4 \<or> data > MESSAGE_MAX k) \<longrightarrow>
               \<not> m_active r' \<and> m_bad r' = m_bad r + 1 \<and> m_done r' = m_done r
               \<and> m_buffer r' = m_buffer r \<and> m_length r' = 0 \<and> m_good r' = m_good r)
            \<and> (m_length r = 0 \<and> 4 \<le> data \<and> data \<le> MESSAGE_MAX k \<longrightarrow>
               m_count r' = data \<and> m_bad r' = m_bad r)
            \<and> (m_length r \<noteq> 0 \<longrightarrow> m_count r' = m_count r \<and> m_bad r' = m_bad r)
            \<and> (\<not> (m_length r = 0 \<and> (data < 4 \<or> data > MESSAGE_MAX k)) \<longrightarrow>
               m_buffer r' = (m_buffer r)[unat (m_length r) := data]
               \<and> m_length r' = m_length r + 1
               \<and> (if m_length r' \<ge> m_count r'
                   then m_done r' \<and> \<not> m_active r' \<and> m_good r' = m_good r + 1
                   else m_done r' = m_done r \<and> m_active r' \<and> m_good r' = m_good r))
            \<and> (\<not> m_active q \<longrightarrow> m_done (PLL k q) \<longrightarrow> m_done q)"
proof -
  let ?r1 = "(PLL_bit k (PLL_ramp k r))\<lparr>m_bit_count := m_bit_count r + 1\<rparr>"
  let ?data = "byte_decoded k r"
  have P: "PLL k r = PLL_byte k ?r1"
    using assms by (rule PLL_byte_complete)
  have act: "m_active r" using assms by (simp add: byte_complete_def)
  have d: "window_byte (m_bits (PLL_bit k (PLL_ramp k r))) = ?data"
    by (simp add: byte_decoded_def window_after_def)
  have rej: "PLL_byte k ?r1 = ?r1\<lparr>m_count := ?data, m_active := False, m_bad := m_bad r + 1\<rparr>"
    if "m_length r = 0" "?data < 4 \<or> ?data > MESSAGE_MAX k"
    using that by (simp add: PLL_byte_def Let_def d)
  have acc: "PLL_byte k ?r1 = PLL_store ?data (?r1\<lparr>m_count := ?data\<rparr>)"
    if "m_length r = 0" "4 \<le> ?data" "?data \<le> MESSAGE_MAX k"
    using that by (simp add: PLL_byte_def Let_def d not_less [symmetric])
  have nxt: "PLL_byte k ?r1 = PLL_store ?data ?r1" if "m_length r \<noteq> 0"
    using that by (simp add: PLL_byte_def Let_def d)
  have c1: "m_length r = 0 \<and> (?data < 4 \<or> ?data > MESSAGE_MAX k) \<longrightarrow>
               \<not> m_active (PLL k r) \<and> m_bad (PLL k r) = m_bad r + 1 \<and> m_done (PLL k r) = m_done r
               \<and> m_buffer (PLL k r) = m_buffer r \<and> m_length (PLL k r) = 0
               \<and> m_good (PLL k r) = m_good r"
    using rej by (auto simp: P)
  have c2: "m_length r = 0 \<and> 4 \<le> ?data \<and> ?data \<le> MESSAGE_MAX k \<longrightarrow>
               m_count (PLL k r) = ?data \<and> m_bad (PLL k r) = m_bad r"
    using acc by (auto simp: P)
  have c3: "m_length r \<noteq> 0 \<longrightarrow> m_count (PLL k r) = m_count r \<and> m_bad (PLL k r) = m_bad r"
    using nxt by (auto simp: P)
  have c4: "\<not> (m_length r = 0 \<and> (?data < 4 \<or> ?data > MESSAGE_MAX k)) \<longrightarrow>
               m_buffer (PLL k r) = (m_buffer r)[unat (m_length r) := ?data]
               \<and> m_length (PLL k r) = m_length r + 1
               \<and> (if m_length (PLL k r) \<ge> m_count (PLL k r)
                   then m_done (PLL k r) \<and> \<not> m_active (PLL k r) \<and> m_good (PLL k r) = m_good r + 1
                   else m_done (PLL k r) = m_done r \<and> m_active (PLL k r)
                        \<and> m_good (PLL k r) = m_good r)"
  proof (intro impI)
    assume a: "\<not> (m_length r = 0 \<and> (?data < 4 \<or> ?data > MESSAGE_MAX k))"
    then obtain s where s: "PLL k r = PLL_store ?data s" "m_length s = m_length r"
      "m_buffer s = m_buffer r" "m_done s = m_done r" "m_active s" "m_good s = m_good r"
    proof (cases "m_length r = 0")
      case True
      with a have "4 \<le> ?data" "?data \<le> MESSAGE_MAX k" by (auto simp: not_less)
      with True acc act that show ?thesis by (simp add: P)
    next
      case False
      with nxt act that show ?thesis by (simp add: P)
    qed
    show "m_buffer (PLL k r) = (m_buffer r)[unat (m_length r) := ?data]
               \<and> m_length (PLL k r) = m_length r + 1
               \<and> (if m_length (PLL k r) \<ge> m_count (PLL k r)
                   then m_done (PLL k r) \<and> \<not> m_active (PLL k r) \<and> m_good (PLL k r) = m_good r + 1
                   else m_done (PLL k r) = m_done r \<and> m_active (PLL k r)
                        \<and> m_good (PLL k r) = m_good r)"
      using PLL_store_end [of s ?data] PLL_store_more [of s ?data] s
      by (cases "m_count s \<le> m_length s + 1") simp_all
  qed
  show ?thesis
    unfolding Let_def using c1 c2 c3 c4 PLL_inactive [of q k] by blast
qed

text \<open>
  C7. Outside the active state, a bit boundary whose window equals the start
  marker \<^verbatim>\<open>0xb38\<close> makes the receiver active with bit counter and length 0 and
  clears \<^verbatim>\<open>m_done\<close>, whether or not a message was pending; \<^verbatim>\<open>recv\<close> on the resulting
  state returns false and changes nothing.
\<close>

theorem PLL_start_marker_discards:
  assumes "\<not> m_active r" and "bit_boundary k r" and "window_after k r = 0xb38"
  shows "let r' = PLL k r
         in m_active r' \<and> m_bit_count r' = 0 \<and> m_length r' = 0 \<and> \<not> m_done r'
            \<and> recv r' buf len = (False, buf, len, r')"
proof -
  have "PLL k r = (PLL_bit k (PLL_ramp k r))\<lparr>m_active := True, m_bit_count := 0,
                     m_length := 0, m_done := False\<rparr>"
    using assms by (simp add: PLL_boundary PLL_frame_def window_after_def)
  then show ?thesis by (simp add: Let_def recv_def)
qed

subsection \<open>recv\<close>

lemma memcpy_take: "n \<le> length src \<Longrightarrow> take n (memcpy dst src n) = take n src"
  by (simp add: memcpy_def)

lemma memcpy_drop: "n \<le> length src \<Longrightarrow> drop n (memcpy dst src n) = drop n dst"
  by (simp add: memcpy_def)

lemma unat_sub3: "3 \<le> (x :: 8 word) \<Longrightarrow> unat (x - 3) = unat x - 3"
  by (simp add: unat_sub)

text \<open>
  C1, as the code has it. \<^verbatim>\<open>recv\<close> returns one boolean. Without a pending message it
  is false and nothing changes. With a pending message the call sets \<^verbatim>\<open>*len\<close> to the
  minimum of its value on entry and \<^verbatim>\<open>m_length - 3\<close>, copies that many bytes of the
  payload (the buffered message without the count byte and the two checksum bytes)
  to the front of the caller's buffer, clears \<^verbatim>\<open>m_done\<close>, and returns whether the CRC
  over the whole buffered message is \<^verbatim>\<open>0xF0B8\<close>: a message with a wrong checksum is
  copied all the same, and the call returns false for it.
\<close>

theorem recv_returns_checksum_validity:
  "(\<not> m_done r \<longrightarrow> recv r buf len = (False, buf, len, r))
   \<and> (m_done r \<longrightarrow>
        (let n = min len (m_length r - 3);
             ok = fst (recv r buf len);
             buf' = fst (snd (recv r buf len));
             len' = fst (snd (snd (recv r buf len)));
             r' = snd (snd (snd (recv r buf len)))
         in ok = (CRC (m_buffer r) (m_length r) = 0xf0b8)
            \<and> len' = n
            \<and> r' = r\<lparr>m_done := False\<rparr>
            \<and> (3 \<le> m_length r \<and> unat (m_length r) \<le> length (m_buffer r)
                 \<and> unat len \<le> length buf \<longrightarrow>
                 unat n = min (unat len) (length (payload r))
                 \<and> take (unat n) buf' = take (unat n) (payload r)
                 \<and> drop (unat n) buf' = drop (unat n) buf)))"
proof -
  let ?n = "min len (m_length r - 3)"
  have n: "(if len > m_length r - 3 then m_length r - 3 else len) = ?n"
    by (auto simp: min_def)
  have copy: "unat ?n = min (unat len) (length (payload r))
      \<and> take (unat ?n) (memcpy buf (drop 1 (m_buffer r)) (unat ?n)) = take (unat ?n) (payload r)
      \<and> drop (unat ?n) (memcpy buf (drop 1 (m_buffer r)) (unat ?n)) = drop (unat ?n) buf"
    if a: "3 \<le> m_length r" "unat (m_length r) \<le> length (m_buffer r)" "unat len \<le> length buf"
  proof -
    have lp: "length (payload r) = unat (m_length r) - 3"
      using a by (simp add: payload_def)
    have un: "unat ?n = min (unat len) (unat (m_length r) - 3)"
      using a(1) by (simp add: min_def word_le_nat_alt unat_sub3)
    have le: "unat ?n \<le> length (drop 1 (m_buffer r))"
      using un a by simp
    have "take (unat ?n) (payload r) = take (unat ?n) (drop 1 (m_buffer r))"
      using un by (simp add: payload_def min_def)
    with un lp le show ?thesis
      by (simp add: memcpy_take memcpy_drop)
  qed
  have idle: "recv r buf len = (False, buf, len, r)" if "\<not> m_done r"
    using that by (simp add: recv_def)
  have busy: "recv r buf len
      = (CRC (m_buffer r) (m_length r) = 0xf0b8, memcpy buf (drop 1 (m_buffer r)) (unat ?n),
         ?n, r\<lparr>m_done := False\<rparr>)" if "m_done r"
    using that by (simp add: recv_def Let_def n)
  show ?thesis
  proof (cases "m_done r")
    case False
    then show ?thesis using idle by simp
  next
    case True
    show ?thesis
      unfolding Let_def busy [OF True] fst_conv snd_conv
      using True copy by blast
  qed
qed

subsection \<open>The framing invariant\<close>

lemma rx_idle_inv: "rx_idle k r \<Longrightarrow> rx_inv k r"
  by (simp add: rx_idle_def rx_inv_def)

lemma rx_inv_sample [simp]: "rx_inv k (r\<lparr>m_sample := b\<rparr>) = rx_inv k r"
  by (simp add: rx_inv_def)

lemma rx_inv_recv: "rx_inv k r \<Longrightarrow> rx_inv k (snd (snd (snd (recv r buf len))))"
  by (auto simp: recv_def rx_inv_def Let_def)

lemma rx_inv_cong:
  assumes "rx_inv k r" and "m_buffer r' = m_buffer r" and "m_active r' = m_active r"
    and "m_done r' = m_done r" and "m_count r' = m_count r" and "m_length r' = m_length r"
  shows "rx_inv k r'"
  using assms by (simp add: rx_inv_def)

lemma word8_succ_le: "(x :: 8 word) < y \<Longrightarrow> unat (x + 1) = unat x + 1"
proof -
  assume "x < y"
  then have "unat x < unat y" by (simp add: word_less_nat_alt)
  moreover have "unat y < 256" using unsigned_less [of y, where ?'a = nat] by simp
  ultimately show ?thesis by (simp add: unat_word_ariths)
qed

lemma rx_inv_store_first:
  assumes "rx_inv k r" and "m_active r" and "m_length r = 0"
    and "4 \<le> d" and "d \<le> MESSAGE_MAX k"
  shows "rx_inv k (PLL_store d (r\<lparr>m_count := d\<rparr>))"
proof -
  have len: "length (m_buffer r) = unat (MESSAGE_MAX k)"
    using assms(1) by (simp add: rx_inv_def)
  have "4 \<le> unat d" using assms(4) by (simp add: word_le_nat_alt)
  moreover have "unat d \<le> unat (MESSAGE_MAX k)" using assms(5) by (simp add: word_le_nat_alt)
  ultimately have pos: "0 < length (m_buffer r)" using len by simp
  have nd: "\<not> d \<le> 1" using \<open>4 \<le> unat d\<close> by (simp add: word_le_nat_alt)
  have lt: "(1 :: 8 word) < d" using nd by simp
  have ne: "(1 :: 8 word) \<noteq> 0" by simp
  show ?thesis
    using assms pos nd lt
    by (simp add: rx_inv_def PLL_store_def Let_def)
qed

lemma rx_inv_store_next:
  assumes "rx_inv k r" and "m_active r" and "m_length r \<noteq> 0"
  shows "rx_inv k (PLL_store d r)"
proof -
  from assms have len: "length (m_buffer r) = unat (MESSAGE_MAX k)"
    and nd: "\<not> m_done r"
    and c: "4 \<le> m_count r" "m_count r \<le> MESSAGE_MAX k" "m_length r < m_count r"
      "m_buffer r ! 0 = m_count r"
    by (simp_all add: rx_inv_def)
  have u: "unat (m_length r + 1) = unat (m_length r) + 1"
    using c(3) by (rule word8_succ_le)
  have pos: "unat (m_length r) \<noteq> 0"
    using assms(3) by (simp add: unat_eq_zero)
  have keep: "(m_buffer r)[unat (m_length r) := d] ! 0 = m_count r"
    using pos c(4) by simp
  have nz: "m_length r + 1 \<noteq> 0"
    using u by (metis Suc_eq_plus1 nat.simps(3) unat_0)
  show ?thesis
  proof (cases "m_count r \<le> m_length r + 1")
    case True
    have "unat (m_length r + 1) \<le> unat (m_count r)"
      using c(3) u by (simp add: word_less_nat_alt)
    with True have "m_length r + 1 = m_count r"
      by (simp add: word_le_nat_alt word_unat_eq_iff)
    with True len c keep show ?thesis
      by (simp add: rx_inv_def PLL_store_def Let_def)
  next
    case False
    then have "m_length r + 1 < m_count r" by simp
    with False len c keep nd nz assms(2) show ?thesis
      by (simp add: rx_inv_def PLL_store_def Let_def)
  qed
qed

lemma rx_inv_PLL_byte:
  assumes "rx_inv k r" and "m_active r"
  shows "rx_inv k (PLL_byte k r)"
proof (cases "m_length r = 0")
  case True
  let ?d = "window_byte (m_bits r)"
  show ?thesis
  proof (cases "?d < 4 \<or> ?d > MESSAGE_MAX k")
    case bad: True
    have "PLL_byte k r = r\<lparr>m_count := ?d, m_active := False, m_bad := m_bad r + 1\<rparr>"
      using True bad by (simp add: PLL_byte_def Let_def)
    moreover have "\<not> m_done r" using assms by (simp add: rx_inv_def)
    ultimately show ?thesis using assms(1) by (simp add: rx_inv_def)
  next
    case ok: False
    then have "PLL_byte k r = PLL_store ?d (r\<lparr>m_count := ?d\<rparr>)"
      using True by (simp add: PLL_byte_def Let_def)
    moreover have "4 \<le> ?d" "?d \<le> MESSAGE_MAX k" using ok by (simp_all add: not_less)
    ultimately show ?thesis
      using rx_inv_store_first [OF assms True] by simp
  qed
next
  case False
  then have "PLL_byte k r = PLL_store (window_byte (m_bits r)) r"
    by (simp add: PLL_byte_def Let_def)
  then show ?thesis using rx_inv_store_next [OF assms False] by simp
qed

lemma rx_inv_PLL_frame: "rx_inv k r \<Longrightarrow> rx_inv k (PLL_frame k r)"
proof -
  assume inv: "rx_inv k r"
  show ?thesis
  proof (cases "m_active r")
    case True
    let ?r1 = "r\<lparr>m_bit_count := m_bit_count r + 1\<rparr>"
    have inv1: "rx_inv k ?r1" using inv by (simp add: rx_inv_def)
    have act1: "m_active ?r1" using True by simp
    show ?thesis
      using True inv1 rx_inv_PLL_byte [OF inv1 act1]
      by (simp add: PLL_frame_def Let_def)
  next
    case False
    then show ?thesis using inv by (simp add: PLL_frame_def rx_inv_def)
  qed
qed

lemma rx_inv_PLL: "rx_inv k r \<Longrightarrow> rx_inv k (PLL k r)"
proof -
  assume inv: "rx_inv k r"
  have 1: "rx_inv k (PLL_ramp k r)"
    using inv by (rule rx_inv_cong) simp_all
  have 2: "rx_inv k (PLL_bit k (PLL_ramp k r))"
    using 1 by (rule rx_inv_cong) simp_all
  show ?thesis
    using 1 2 by (simp add: PLL_def Let_def rx_inv_PLL_frame)
qed

lemma rx_inv_step: "rx_inv k r \<Longrightarrow> rx_inv k (rx_step k ev r)"
  by (cases ev) (simp_all add: rx_inv_PLL rx_inv_recv)

lemma rx_inv_run: "rx_inv k r \<Longrightarrow> rx_inv k (rx_run k evs r)"
  unfolding rx_run_def
  by (induction evs arbitrary: r) (simp_all add: rx_inv_step)

text \<open>
  In a history that starts between frames, every store of the PLL lands inside
  the buffer.
\<close>

lemma reachable_store_in_range:
  assumes "rx_idle k r0" and "r = rx_run k evs r0" and "byte_complete k r"
    and "\<not> (m_length r = 0 \<and> (byte_decoded k r < 4 \<or> byte_decoded k r > MESSAGE_MAX k))"
  shows "unat (m_length r) < length (m_buffer r)"
proof -
  have inv: "rx_inv k r"
    using assms(1,2) by (simp add: rx_idle_inv rx_inv_run)
  have act: "m_active r" using assms(3) by (simp add: byte_complete_def)
  have len: "length (m_buffer r) = unat (MESSAGE_MAX k)"
    using inv by (simp add: rx_inv_def)
  show ?thesis
  proof (cases "m_length r = 0")
    case True
    with assms(4) have "4 \<le> byte_decoded k r" "byte_decoded k r \<le> MESSAGE_MAX k"
      by (simp_all add: not_less)
    then have "4 \<le> unat (MESSAGE_MAX k)"
      by (simp add: word_le_nat_alt)
    with True len show ?thesis by simp
  next
    case False
    with inv act have "m_length r < m_count r" "m_count r \<le> MESSAGE_MAX k"
      by (simp_all add: rx_inv_def)
    then show ?thesis using len by (simp add: word_less_nat_alt word_le_nat_alt)
  qed
qed

text \<open>
  C10. In every state of a history that starts between frames with no message
  pending (PLL steps on any samples, calls of \<^verbatim>\<open>recv\<close> in between), a set \<^verbatim>\<open>m_done\<close>
  means: the buffered length equals the declared count, which is the first byte of
  the buffer, and lies in \<open>[4, MESSAGE_MAX]\<close>; the payload length \<^verbatim>\<open>m_length - 3\<close>
  that \<^verbatim>\<open>recv\<close> computes is the true difference and at least 1.
\<close>

theorem done_message_has_declared_length:
  assumes "rx_idle k r0"
  shows "let r = rx_run k evs r0
         in m_done r \<longrightarrow>
              m_length r = m_count r \<and> m_buffer r ! 0 = m_length r
              \<and> 4 \<le> m_length r \<and> m_length r \<le> MESSAGE_MAX k
              \<and> unat (m_length r - 3) = unat (m_length r) - 3
              \<and> 1 \<le> unat (m_length r - 3)
              \<and> 3 \<le> unat (m_length r)"
proof -
  let ?r = "rx_run k evs r0"
  have inv: "rx_inv k ?r"
    using assms by (simp add: rx_idle_inv rx_inv_run)
  have "m_length ?r = m_count ?r \<and> m_buffer ?r ! 0 = m_length ?r
      \<and> 4 \<le> m_length ?r \<and> m_length ?r \<le> MESSAGE_MAX k
      \<and> unat (m_length ?r - 3) = unat (m_length ?r) - 3
      \<and> 1 \<le> unat (m_length ?r - 3) \<and> 3 \<le> unat (m_length ?r)"
    if d: "m_done ?r"
  proof -
    from inv d have c: "4 \<le> m_count ?r" "m_count ?r \<le> MESSAGE_MAX k"
      "m_length ?r = m_count ?r" "m_buffer ?r ! 0 = m_count ?r"
      by (simp_all add: rx_inv_def)
    have u4: "4 \<le> unat (m_length ?r)"
      using c(1,3) by (simp add: word_le_nat_alt)
    have "3 \<le> m_length ?r"
      using u4 by (simp add: word_le_nat_alt)
    then have s: "unat (m_length ?r - 3) = unat (m_length ?r) - 3"
      by (rule unat_sub3)
    show ?thesis using c u4 s by simp
  qed
  then show ?thesis unfolding Let_def by blast
qed

subsection \<open>Timer calculation\<close>

lemma timer_loop_first_fit:
  assumes "start \<le> p" and "p < 7"
    and "1 < ticks (prescalers ! p)" and "ticks (prescalers ! p) < unat max_ticks"
    and "\<forall>q. start \<le> q \<and> q < p \<longrightarrow>
           \<not> (1 < ticks (prescalers ! q) \<and> ticks (prescalers ! q) < unat max_ticks)"
  shows "timer_loop ticks max_ticks start u = (p, ticks (prescalers ! p))"
  using assms
proof (induction ticks max_ticks start u rule: timer_loop.induct)
  case (1 ticks max_ticks prescaler ulticks)
  show ?case
  proof (cases "prescaler = p")
    case True
    with "1.prems" show ?thesis by (subst timer_loop.simps) simp
  next
    case False
    with "1.prems" have lt: "prescaler < p" by simp
    with "1.prems" have nofit: "\<not> (1 < ticks (prescalers ! prescaler)
        \<and> ticks (prescalers ! prescaler) < unat max_ticks)" by simp
    have "timer_loop ticks max_ticks (prescaler + 1) (ticks (prescalers ! prescaler))
        = (p, ticks (prescalers ! p))"
      using "1.IH" [OF _ refl nofit] "1.prems" lt by simp
    with nofit lt "1.prems" show ?thesis by (subst timer_loop.simps) (simp add: Let_def)
  qed
qed

lemma timer_loop_no_fit:
  assumes "start \<le> 6"
    and "\<forall>q. start \<le> q \<and> q < 7 \<longrightarrow>
           \<not> (1 < ticks (prescalers ! q) \<and> ticks (prescalers ! q) < unat max_ticks)"
  shows "timer_loop ticks max_ticks start u = (7, ticks (prescalers ! 6))"
  using assms
proof (induction ticks max_ticks start u rule: timer_loop.induct)
  case (1 ticks max_ticks prescaler ulticks)
  from "1.prems" have nofit: "\<not> (1 < ticks (prescalers ! prescaler)
      \<and> ticks (prescalers ! prescaler) < unat max_ticks)" by simp
  show ?case
  proof (cases "prescaler = 6")
    case True
    have "timer_loop ticks max_ticks 7 (ticks (prescalers ! 6)) = (7, ticks (prescalers ! 6))"
      by (subst timer_loop.simps) simp
    with True nofit show ?thesis by (subst timer_loop.simps) (simp add: Let_def)
  next
    case False
    with "1.prems" have lt: "prescaler < 6" by simp
    have "timer_loop ticks max_ticks (prescaler + 1) (ticks (prescalers ! prescaler))
        = (7, ticks (prescalers ! 6))"
      using "1.IH" [OF _ refl nofit] "1.prems" lt by simp
    with nofit lt show ?thesis by (subst timer_loop.simps) (simp add: Let_def)
  qed
qed

text \<open>
  C5 as stated fails: at 8 MHz and 3920 bit/s with an 8-bit counter the smallest
  divider, 1, has tick count 255, which lies in the inclusive range \<open>[2, 255]\<close>;
  the function does not accept it and returns index 2 (divider 8) with 31 ticks.
\<close>

theorem timer_calc_accepts_below_max_only:
  "2 \<le> exact_ticks 8000000 3920 (prescalers ! 1)
   \<and> exact_ticks 8000000 3920 (prescalers ! 1) \<le> unat (255 :: 16 word)
   \<and> timer_calc (exact_ticks 8000000 3920) 3920 255 = (2, 31)"
  by (simp add: timer_calc_def exact_ticks_def prescalers_def timer_loop.simps [of _ _ "Suc 0"]
      timer_loop.simps [of _ _ "Suc (Suc 0)"] Let_def)

text \<open>
  C5, amended. With \<open>ticks d\<close> the tick count computed for the divider \<open>d\<close>: the
  function fails, returning index 0 and tick count 0, when the speed is 0;
  otherwise it tries the dividers 1, 8, 64, 256, 1024 (indices 1 to 5) in this
  order and returns the first index whose tick count is at least 2 and strictly
  below \<open>max_ticks\<close>, with that tick count; if none of the five is in that range it
  fails, provided the tick count of the sentinel divider 3333 is not exactly
  \<open>max_ticks\<close>. (Nothing is said about that last case.)
\<close>

theorem timer_calc_first_fit:
  "(speed = 0 \<longrightarrow> timer_calc ticks speed max_ticks = (0, 0))
   \<and> (speed \<noteq> 0 \<and> 1 \<le> p \<and> p \<le> 5
        \<and> 2 \<le> ticks (prescalers ! p) \<and> ticks (prescalers ! p) < unat max_ticks
        \<and> (\<forall>q. 1 \<le> q \<and> q < p \<longrightarrow>
              \<not> (2 \<le> ticks (prescalers ! q) \<and> ticks (prescalers ! q) < unat max_ticks))
        \<longrightarrow> timer_calc ticks speed max_ticks = (of_nat p, of_nat (ticks (prescalers ! p)))
            \<and> fst (timer_calc ticks speed max_ticks) \<noteq> 0)
   \<and> (speed \<noteq> 0
        \<and> (\<forall>q. 1 \<le> q \<and> q \<le> 5 \<longrightarrow>
              \<not> (2 \<le> ticks (prescalers ! q) \<and> ticks (prescalers ! q) < unat max_ticks))
        \<and> ticks 3333 \<noteq> unat max_ticks
        \<longrightarrow> timer_calc ticks speed max_ticks = (0, 0))"
proof -
  have c1: "timer_calc ticks speed max_ticks = (0, 0)" if "speed = 0"
    using that by (simp add: timer_calc_def)
  have c2: "timer_calc ticks speed max_ticks = (of_nat p, of_nat (ticks (prescalers ! p)))
      \<and> fst (timer_calc ticks speed max_ticks) \<noteq> 0"
    if a: "speed \<noteq> 0 \<and> 1 \<le> p \<and> p \<le> 5
        \<and> 2 \<le> ticks (prescalers ! p) \<and> ticks (prescalers ! p) < unat max_ticks
        \<and> (\<forall>q. 1 \<le> q \<and> q < p \<longrightarrow>
              \<not> (2 \<le> ticks (prescalers ! q) \<and> ticks (prescalers ! q) < unat max_ticks))"
  proof -
    from a have "timer_loop ticks max_ticks 1 0 = (p, ticks (prescalers ! p))"
      by (intro timer_loop_first_fit) auto
    with a have r: "timer_calc ticks speed max_ticks = (of_nat p, of_nat (ticks (prescalers ! p)))"
      by (auto simp: timer_calc_def)
    have "unat (of_nat p :: 8 word) = p"
      using a by (simp add: unat_of_nat)
    with a have "(of_nat p :: 8 word) \<noteq> 0" by (metis not_one_le_zero unat_0)
    with r show ?thesis by simp
  qed
  have c3: "timer_calc ticks speed max_ticks = (0, 0)"
    if a: "speed \<noteq> 0
        \<and> (\<forall>q. 1 \<le> q \<and> q \<le> 5 \<longrightarrow>
              \<not> (2 \<le> ticks (prescalers ! q) \<and> ticks (prescalers ! q) < unat max_ticks))
        \<and> ticks 3333 \<noteq> unat max_ticks"
  proof -
    let ?fit6 = "1 < ticks (prescalers ! 6) \<and> ticks (prescalers ! 6) < unat max_ticks"
    have p6: "prescalers ! 6 = 3333" by (simp add: prescalers_def)
    show ?thesis
    proof (cases ?fit6)
      case True
      have "timer_loop ticks max_ticks 1 0 = (6, ticks (prescalers ! 6))"
      proof (rule timer_loop_first_fit)
        show "\<forall>q. 1 \<le> q \<and> q < 6 \<longrightarrow>
             \<not> (1 < ticks (prescalers ! q) \<and> ticks (prescalers ! q) < unat max_ticks)"
          using a by auto
      qed (use True in simp_all)
      then show ?thesis using a by (simp add: timer_calc_def)
    next
      case False
      have "\<forall>q. 1 \<le> q \<and> q < 7 \<longrightarrow>
             \<not> (1 < ticks (prescalers ! q) \<and> ticks (prescalers ! q) < unat max_ticks)"
      proof (intro allI impI)
        fix q :: nat
        assume q: "1 \<le> q \<and> q < 7"
        show "\<not> (1 < ticks (prescalers ! q) \<and> ticks (prescalers ! q) < unat max_ticks)"
        proof (cases "q = 6")
          case True
          with False show ?thesis by simp
        next
          case False
          with q have "q \<le> 5" by simp
          with a q show ?thesis by auto
        qed
      qed
      then have "timer_loop ticks max_ticks 1 0 = (7, ticks (prescalers ! 6))"
        by (intro timer_loop_no_fit) simp_all
      with a False show ?thesis by (auto simp: timer_calc_def p6)
    qed
  qed
  show ?thesis using c1 c2 c3 by blast
qed

subsection \<open>Oversized payloads\<close>

text \<open>
  C8. A payload length above \<^verbatim>\<open>PAYLOAD_MAX\<close> makes \<^verbatim>\<open>send\<close> return false with the
  transmitter exactly as it was: nothing is waited for and nothing is assembled,
  also when a transmission is under way.
\<close>

theorem send_oversized_unchanged:
  "PAYLOAD_MAX k < len \<Longrightarrow> send k t bp len = (False, t)"
  by (simp add: send_def Let_def)

subsection \<open>Interrupt handler\<close>

lemma PLL_enabled [simp]: "m_enabled (PLL k r) = m_enabled r"
  by (simp add: PLL_def Let_def)

lemma tx_tick_disabled: "\<not> tx_enabled t \<Longrightarrow> \<not> tx_enabled (tx_tick t)"
  by (simp add: tx_tick_def Let_def)

lemma tx_tick_first:
  "tx_enabled t \<Longrightarrow> tx_sample t = 0 \<Longrightarrow>
     \<not> tx_enabled (tx_tick t) \<or> tx_sample (tx_tick t) = 1"
  by (simp add: tx_tick_def tx_step_def Transmitter_end_def Let_def)

lemma tx_tick_between:
  assumes "tx_enabled t" and "tx_sample t \<noteq> 0"
  shows "tx_tick t = t\<lparr>tx_sample := (if tx_sample t + 1 > 7 then 0 else tx_sample t + 1)\<rparr>"
  using assms by (simp add: tx_tick_def Let_def)

lemma tx_subdivider:
  assumes "tx_enabled t" and "tx_sample t = 0" and "0 < n" and "n < 8"
  shows "\<not> tx_enabled ((tx_tick ^^ n) t) \<or> tx_sample ((tx_tick ^^ n) t) = of_nat n"
  using assms(3,4)
proof (induction n)
  case 0
  then show ?case by simp
next
  case (Suc n)
  show ?case
  proof (cases "n = 0")
    case True
    then show ?thesis using tx_tick_first [OF assms(1,2)] by simp
  next
    case False
    with Suc have IH: "\<not> tx_enabled ((tx_tick ^^ n) t) \<or> tx_sample ((tx_tick ^^ n) t) = of_nat n"
      by simp
    let ?t = "(tx_tick ^^ n) t"
    show ?thesis
    proof (cases "tx_enabled ?t")
      case dis: False
      then show ?thesis using tx_tick_disabled [of ?t] by simp
    next
      case en: True
      with IH have s: "tx_sample ?t = of_nat n" by simp
      from Suc.prems False have n: "n \<in> {1, 2, 3, 4, 5, 6}" by auto
      then have nz: "(of_nat n :: 8 word) \<noteq> 0" and le: "\<not> (of_nat n + 1 :: 8 word) > 7"
        by auto
      have "tx_tick ?t = ?t\<lparr>tx_sample := of_nat n + 1\<rparr>"
        using tx_tick_between [OF en] s nz le by simp
      then show ?thesis by simp
    qed
  qed
qed

lemma tx_runs_subdivided:
  assumes "tx_runs t" and "0 < n" and "n < 8"
  shows "\<not> tx_runs ((tx_tick ^^ n) t)"
proof -
  from assms(1) have "tx_enabled t" "tx_sample t = 0" by (simp_all add: tx_runs_def)
  from tx_subdivider [OF this assms(2,3)]
  have "\<not> tx_enabled ((tx_tick ^^ n) t) \<or> tx_sample ((tx_tick ^^ n) t) = of_nat n" .
  moreover have "(of_nat n :: 8 word) \<noteq> 0"
  proof -
    from assms(2,3) have "n \<in> {1, 2, 3, 4, 5, 6, 7}" by auto
    then show ?thesis by auto
  qed
  ultimately show ?thesis by (auto simp: tx_runs_def)
qed

lemma rx_may_run_PLL [simp]:
  "rx_may_run (s\<lparr>receiver := map_option (PLL k) (receiver s)\<rparr>) = rx_may_run s"
  by (cases "receiver s") (simp_all add: rx_may_run_def)

text \<open>
  C9. One run of the interrupt handler. What runs, runs in the order pin read,
  transmitter output step, PLL. The pin is read exactly when a receiver is
  registered and enabled and no registered transmitter is enabled. The output
  step runs exactly when a transmitter is registered and enabled and its
  subdivider \<^verbatim>\<open>m_sample\<close> is 0, and it does not run in any of the next seven
  interrupts. The PLL runs exactly when the same receive condition holds after
  the transmitter's part, so when it runs no registered transmitter is enabled.
  The receiver changes only by the pin read and the PLL, the transmitter only by
  its own part.
\<close>

theorem ISR_half_duplex_order:
  "let ev = fst (ISR k pin s); s' = snd (ISR k pin s)
   in subseq ev [Sampled, TxStepped, PllRan]
      \<and> (Sampled \<in> set ev \<longleftrightarrow> rx_may_run s)
      \<and> (TxStepped \<in> set ev \<longleftrightarrow> (\<exists>t. transmitter s = Some t \<and> tx_enabled t \<and> tx_sample t = 0))
      \<and> (PllRan \<in> set ev \<longleftrightarrow> rx_may_run s')
      \<and> (PllRan \<in> set ev \<longrightarrow>
            (\<exists>r. receiver s = Some r \<and> m_enabled r)
            \<and> (\<forall>t. transmitter s' = Some t \<longrightarrow> \<not> tx_enabled t))
      \<and> transmitter s' = map_option tx_tick (transmitter s)
      \<and> receiver s' =
           map_option ((if PllRan \<in> set ev then PLL k else id)
                       \<circ> (if Sampled \<in> set ev then (\<lambda>r. r\<lparr>m_sample := pin\<rparr>) else id))
             (receiver s)
      \<and> (\<forall>t n. transmitter s = Some t \<and> tx_runs t \<and> 0 < n \<and> n < 8 \<longrightarrow>
            \<not> tx_runs ((tx_tick ^^ n) t))"
proof -
  have sub: "\<forall>t n. transmitter s = Some t \<and> tx_runs t \<and> 0 < n \<and> n < 8 \<longrightarrow>
            \<not> tx_runs ((tx_tick ^^ n) t)"
    using tx_runs_subdivided by blast
  show ?thesis
  proof (cases "receiver s")
    case None
    then show ?thesis
      using sub
      by (cases "transmitter s") (simp_all add: ISR_def rx_may_run_def tx_runs_def Let_def)
  next
    case (Some r)
    show ?thesis
    proof (cases "transmitter s")
      case None
      then show ?thesis
        using Some sub
        by (simp add: ISR_def rx_may_run_def tx_runs_def Let_def)
    next
      case (Some t)
      then show ?thesis
        using \<open>receiver s = Some r\<close> sub
        by (simp add: ISR_def rx_may_run_def tx_runs_def Let_def)
    qed
  qed
qed

subsection \<open>Concrete runs\<close>

lemma rx_heard_message:
  "m_done rx_heard \<and> m_length rx_heard = 4 \<and> m_count rx_heard = 4 \<and> m_good rx_heard = 1
   \<and> m_buffer rx_heard = [4, 0x41, 0xaa, 0x3b] @ replicate 29 0"
  by code_simp

theorem PLL_first_byte_is_length_witness:
  "byte_complete vw_consts rx_count_2 \<and> m_length rx_count_2 = 0
   \<and> byte_decoded vw_consts rx_count_2 = 2
   \<and> \<not> m_active (PLL vw_consts rx_count_2) \<and> m_bad (PLL vw_consts rx_count_2) = 1
   \<and> \<not> m_done (PLL vw_consts rx_count_2) \<and> m_length (PLL vw_consts rx_count_2) = 0
   \<and> byte_complete vw_consts rx_count_4 \<and> m_length rx_count_4 = 0
   \<and> byte_decoded vw_consts rx_count_4 = 4
   \<and> m_count (PLL vw_consts rx_count_4) = 4 \<and> m_length (PLL vw_consts rx_count_4) = 1
   \<and> m_active (PLL vw_consts rx_count_4) \<and> \<not> m_done (PLL vw_consts rx_count_4)
   \<and> byte_complete vw_consts rx_last_byte \<and> m_length rx_last_byte = 3
   \<and> m_done (PLL vw_consts rx_last_byte) \<and> \<not> m_active (PLL vw_consts rx_last_byte)
   \<and> m_good (PLL vw_consts rx_last_byte) = 1
   \<and> \<not> m_active rx_zero \<and> \<not> m_done (PLL vw_consts rx_zero)"
proof -
  have b2: "byte_complete vw_consts rx_count_2" by code_simp
  have d2: "byte_decoded vw_consts rx_count_2 = 2" by code_simp
  have b4: "byte_complete vw_consts rx_count_4" by code_simp
  have d4: "byte_decoded vw_consts rx_count_4 = 4" by code_simp
  have bl: "byte_complete vw_consts rx_last_byte" by code_simp
  have dl: "byte_decoded vw_consts rx_last_byte = 2" by code_simp
  have s2: "m_length rx_count_2 = 0" "m_bad rx_count_2 = 0" "\<not> m_done rx_count_2"
    by (simp_all add: rx_count_2_def)
  have s4: "m_length rx_count_4 = 0" "\<not> m_done rx_count_4"
    by (simp_all add: rx_count_4_def rx_count_2_def)
  have sl: "m_length rx_last_byte = 3" "m_count rx_last_byte = 4" "m_good rx_last_byte = 0"
    by (simp_all add: rx_last_byte_def rx_count_2_def)
  have z: "\<not> m_active rx_zero" "\<not> m_done rx_zero" by (simp_all add: rx_zero_def)
  have m: "MESSAGE_MAX vw_consts = 33" by (simp add: vw_consts_def)
  have n41: "\<not> (4 :: 8 word) \<le> 1" by (simp add: word_le_nat_alt)
  from PLL_first_byte_is_length [OF b2, of rx_zero]
  have r2: "\<not> m_active (PLL vw_consts rx_count_2) \<and> m_bad (PLL vw_consts rx_count_2) = 1
      \<and> \<not> m_done (PLL vw_consts rx_count_2) \<and> m_length (PLL vw_consts rx_count_2) = 0
      \<and> \<not> m_done (PLL vw_consts rx_zero)"
    unfolding Let_def d2 using s2 z by simp
  from PLL_first_byte_is_length [OF b4, of rx_zero]
  have r4: "m_count (PLL vw_consts rx_count_4) = 4 \<and> m_length (PLL vw_consts rx_count_4) = 1
      \<and> m_active (PLL vw_consts rx_count_4) \<and> \<not> m_done (PLL vw_consts rx_count_4)"
    unfolding Let_def d4 m using s4 n41 by (auto split: if_splits)
  from PLL_first_byte_is_length [OF bl, of rx_zero]
  have rl: "m_done (PLL vw_consts rx_last_byte) \<and> \<not> m_active (PLL vw_consts rx_last_byte)
      \<and> m_good (PLL vw_consts rx_last_byte) = 1"
    unfolding Let_def dl m using sl by (auto split: if_splits)
  show ?thesis using b2 d2 b4 d4 bl s2 s4 sl z r2 r4 rl by simp
qed

theorem PLL_start_marker_discards_witness:
  "\<not> m_active rx_pending_at_marker \<and> m_done rx_pending_at_marker
   \<and> bit_boundary vw_consts rx_pending_at_marker
   \<and> window_after vw_consts rx_pending_at_marker = 0xb38
   \<and> m_active (PLL vw_consts rx_pending_at_marker)
   \<and> m_length (PLL vw_consts rx_pending_at_marker) = 0
   \<and> \<not> m_done (PLL vw_consts rx_pending_at_marker)
   \<and> fst (recv (PLL vw_consts rx_pending_at_marker) [0, 0] 2) = False"
proof -
  have a: "\<not> m_active rx_pending_at_marker" "m_done rx_pending_at_marker"
    by (simp_all add: rx_pending_at_marker_def)
  have b: "bit_boundary vw_consts rx_pending_at_marker" by code_simp
  have w: "window_after vw_consts rx_pending_at_marker = 0xb38" by code_simp
  from PLL_start_marker_discards [OF a(1) b w, of "[0, 0]" 2]
  have "m_active (PLL vw_consts rx_pending_at_marker)
      \<and> m_length (PLL vw_consts rx_pending_at_marker) = 0
      \<and> \<not> m_done (PLL vw_consts rx_pending_at_marker)
      \<and> fst (recv (PLL vw_consts rx_pending_at_marker) [0, 0] 2) = False"
    unfolding Let_def by simp
  with a b w show ?thesis by simp
qed

text \<open>
  C1 as stated fails: a pending message whose checksum does not validate is
  copied to the caller, and \<^verbatim>\<open>recv\<close> returns false, not success.
\<close>

theorem recv_bad_checksum_returns_false:
  "m_done rx_bad_fcs
   \<and> CRC (m_buffer rx_bad_fcs) (m_length rx_bad_fcs) \<noteq> 0xf0b8
   \<and> recv rx_bad_fcs [0, 0] 2 = (False, [0x40, 0], 1, rx_bad_fcs\<lparr>m_done := False\<rparr>)"
  by code_simp

theorem recv_returns_checksum_validity_witness:
  "\<not> m_done rx_zero \<and> recv rx_zero [0, 0] 2 = (False, [0, 0], 2, rx_zero)
   \<and> m_done rx_heard \<and> 3 \<le> m_length rx_heard
   \<and> unat (m_length rx_heard) \<le> length (m_buffer rx_heard)
   \<and> unat (2 :: 8 word) \<le> length [0, 0 :: 8 word]
   \<and> fst (recv rx_heard [0, 0] 2) = True
   \<and> fst (snd (snd (recv rx_heard [0, 0] 2))) = 1
   \<and> take 1 (fst (snd (recv rx_heard [0, 0] 2))) = [0x41]
   \<and> drop 1 (fst (snd (recv rx_heard [0, 0] 2))) = [0]"
proof -
  note h = rx_heard_message
  have z: "\<not> m_done rx_zero" by (simp add: rx_zero_def)
  have c: "CRC (m_buffer rx_heard) (m_length rx_heard) = 0xf0b8"
    using h by (simp add: CRC_def crc_ccitt_update_def Let_def)
  have p: "payload rx_heard = [0x41]" using h by (simp add: payload_def)
  have n: "min 2 (m_length rx_heard - 3) = 1" using h by simp
  from recv_returns_checksum_validity [of rx_zero "[0, 0]" 2] z
  have r0: "recv rx_zero [0, 0] 2 = (False, [0, 0], 2, rx_zero)" by blast
  from recv_returns_checksum_validity [of rx_heard "[0, 0]" 2]
  have r1: "fst (recv rx_heard [0, 0] 2) = True
      \<and> fst (snd (snd (recv rx_heard [0, 0] 2))) = 1
      \<and> take 1 (fst (snd (recv rx_heard [0, 0] 2))) = [0x41]
      \<and> drop 1 (fst (snd (recv rx_heard [0, 0] 2))) = [0]"
    unfolding Let_def n c p using h by simp
  show ?thesis using z r0 r1 h by simp
qed

theorem done_message_has_declared_length_witness:
  "rx_idle vw_consts rx_zero \<and> m_done rx_heard
   \<and> m_length rx_heard = m_count rx_heard \<and> m_buffer rx_heard ! 0 = m_length rx_heard
   \<and> unat (m_length rx_heard - 3) = unat (m_length rx_heard) - 3
   \<and> 1 \<le> unat (m_length rx_heard - 3)"
proof -
  have i: "rx_idle vw_consts rx_zero"
    by (simp add: rx_idle_def rx_zero_def vw_consts_def)
  have d: "m_done rx_heard" using rx_heard_message by simp
  from done_message_has_declared_length [OF i,
      of "air_ticks (snd (send vw_consts tx_idle [0x41] 1))"] d
  have "m_length rx_heard = m_count rx_heard \<and> m_buffer rx_heard ! 0 = m_length rx_heard
      \<and> unat (m_length rx_heard - 3) = unat (m_length rx_heard) - 3
      \<and> 1 \<le> unat (m_length rx_heard - 3)"
    unfolding Let_def rx_heard_def [symmetric] by blast
  with i d show ?thesis by blast
qed

theorem timer_calc_first_fit_witness:
  "timer_calc (exact_ticks 16000000 20) 0 65535 = (0, 0)
   \<and> timer_calc (exact_ticks 16000000 20) 20 65535 = (2, 12500)
   \<and> timer_calc (exact_ticks 16000000 1) 1 255 = (0, 0)"
proof -
  let ?T = "exact_ticks 16000000 20"
  let ?U = "exact_ticks 16000000 1"
  have a: "timer_calc ?T 0 65535 = (0, 0)"
    using timer_calc_first_fit [of 0 ?T 65535 2] by simp
  have q1: "\<forall>q. 1 \<le> q \<and> q < 2 \<longrightarrow>
      \<not> (2 \<le> ?T (prescalers ! q) \<and> ?T (prescalers ! q) < unat (65535 :: 16 word))"
  proof (intro allI impI)
    fix q :: nat
    assume "1 \<le> q \<and> q < 2"
    then have "q = 1" by simp
    then show "\<not> (2 \<le> ?T (prescalers ! q) \<and> ?T (prescalers ! q) < unat (65535 :: 16 word))"
      by (simp add: exact_ticks_def prescalers_def)
  qed
  have f2: "2 \<le> ?T (prescalers ! 2) \<and> ?T (prescalers ! 2) < unat (65535 :: 16 word)"
    by (simp add: exact_ticks_def prescalers_def)
  have v2: "?T (prescalers ! 2) = 12500"
    by (simp add: exact_ticks_def prescalers_def)
  have b: "timer_calc ?T 20 65535 = (2, 12500)"
    using timer_calc_first_fit [of 20 ?T 65535 2] q1 f2 v2 by simp
  have q5: "\<forall>q. 1 \<le> q \<and> q \<le> 5 \<longrightarrow>
      \<not> (2 \<le> ?U (prescalers ! q) \<and> ?U (prescalers ! q) < unat (255 :: 16 word))"
  proof (intro allI impI)
    fix q :: nat
    assume "1 \<le> q \<and> q \<le> 5"
    then have "q \<in> {1, 2, 3, 4, 5}" by auto
    then show "\<not> (2 \<le> ?U (prescalers ! q) \<and> ?U (prescalers ! q) < unat (255 :: 16 word))"
      by (auto simp: exact_ticks_def prescalers_def)
  qed
  have s: "?U 3333 \<noteq> unat (255 :: 16 word)"
    by (simp add: exact_ticks_def)
  have c: "timer_calc ?U 1 255 = (0, 0)"
    using timer_calc_first_fit [of 1 ?U 255 2] q5 s by simp
  show ?thesis using a b c by simp
qed

theorem send_oversized_unchanged_witness:
  "PAYLOAD_MAX vw_consts < 31 \<and> tx_enabled tx_busy
   \<and> send vw_consts tx_busy (replicate 31 0) 31 = (False, tx_busy)"
proof -
  have h: "PAYLOAD_MAX vw_consts < 31" by (simp add: vw_consts_def)
  from send_oversized_unchanged [OF h, of tx_busy "replicate 31 0"] h
  show ?thesis by (simp add: tx_busy_def)
qed

theorem ISR_half_duplex_order_witness:
  "fst (ISR vw_consts True \<lparr>transmitter = Some tx_idle, receiver = Some rx_zero\<rparr>)
     = [Sampled, PllRan]
   \<and> fst (ISR vw_consts True \<lparr>transmitter = Some tx_busy, receiver = Some rx_zero\<rparr>) = []
   \<and> fst (ISR vw_consts True \<lparr>transmitter = Some tx_finishing, receiver = Some rx_zero\<rparr>)
     = [TxStepped, PllRan]
   \<and> \<not> tx_enabled (tx_tick tx_finishing)
   \<and> tx_runs tx_finishing \<and> \<not> tx_runs ((tx_tick ^^ 3) tx_finishing)"
proof -
  let ?s1 = "\<lparr>transmitter = Some tx_idle, receiver = Some rx_zero\<rparr>"
  let ?s2 = "\<lparr>transmitter = Some tx_busy, receiver = Some rx_zero\<rparr>"
  let ?s3 = "\<lparr>transmitter = Some tx_finishing, receiver = Some rx_zero\<rparr>"
  have e1: "fst (ISR vw_consts True ?s1) = [Sampled, PllRan]" by code_simp
  have e2: "fst (ISR vw_consts True ?s2) = []" by code_simp
  have e3: "fst (ISR vw_consts True ?s3) = [TxStepped, PllRan]" by code_simp
  have r: "tx_runs tx_finishing" by code_simp
  have t: "transmitter ?s3 = Some tx_finishing" by simp
  note h = ISR_half_duplex_order [of vw_consts True ?s3, unfolded Let_def e3]
  from h have "\<forall>t n. transmitter ?s3 = Some t \<and> tx_runs t \<and> 0 < n \<and> n < 8 \<longrightarrow>
            \<not> tx_runs ((tx_tick ^^ n) t)"
    by blast
  with t r have sub: "\<not> tx_runs ((tx_tick ^^ 3) tx_finishing)" by simp
  from h have "transmitter (snd (ISR vw_consts True ?s3)) = map_option tx_tick (transmitter ?s3)"
    and "PllRan \<in> set [TxStepped, PllRan] \<longrightarrow>
           (\<forall>t. transmitter (snd (ISR vw_consts True ?s3)) = Some t \<longrightarrow> \<not> tx_enabled t)"
    by blast+
  then have off: "\<not> tx_enabled (tx_tick tx_finishing)" by simp
  from e1 e2 e3 r sub off show ?thesis by simp
qed

end
